theory Spec2Isabelle
  imports Main "HOL-Library.AList"
begin

section \<open>Values and data of the check-trigger runner\<close>

text \<open>
  The runner (\<^verbatim>\<open>packages/cli/src/services/check-trigger-runner.ts\<close>) is an event emitter
  driven by three kinds of callbacks on one JavaScript event loop: the continuations of
  \<^verbatim>\<open>run()\<close>, the broker's \<^verbatim>\<open>message\<close> listener and the per-check timer callbacks.
  The embedding is a state machine: the state holds the fields of the class together with
  the pieces of the runtime the code relies on (armed timers, suspended listeners), and every
  callback is a function on that state which runs up to its next \<^verbatim>\<open>await\<close>.

  JavaScript values that arrive as JSON are modelled by \<open>json\<close>; \<open>undefined\<close> is
  \<open>None\<close> of \<open>json option\<close>. Objects are association lists in key order, so that
  \<^verbatim>\<open>Object.keys\<close> is \<open>map fst\<close>, a property read is \<open>map_of\<close> and a property write is
  \<open>AList.update\<close>. The entries are the own properties. Of the names inherited from
  \<^verbatim>\<open>Object.prototype\<close>, the accessor \<^verbatim>\<open>__proto__\<close> is modelled where the code assigns
  through it (\<^verbatim>\<open>objectFlip\<close>); a read sees own properties only.
\<close>

datatype json =
    JNull
  | JBool bool
  | JNum int
  | JStr string
  | JArr "json list"
  | JObj "(string \<times> json) list"

type_synonym jsval = "json option"

text \<open>Truthiness of a JavaScript value, as tested by \<^verbatim>\<open>logPath && ...\<close>.\<close>

fun truthy :: "jsval \<Rightarrow> bool" where
  "truthy None = False"
| "truthy (Some JNull) = False"
| "truthy (Some (JBool b)) = b"
| "truthy (Some (JNum n)) = (n \<noteq> 0)"
| "truthy (Some (JStr s)) = (s \<noteq> [])"
| "truthy (Some (JArr xs)) = True"
| "truthy (Some (JObj kvs)) = True"

datatype error =
    SyntaxError
  | TypeError
  | Rejection string

text \<open>
  A check of the trigger response. The code reads only \<^verbatim>\<open>check.id\<close>; everything else
  travels along unread.
\<close>

datatype check = Check (check_id: string) (check_data: json)

datatype RunLocation =
    PUBLIC string
  | PRIVATE string string

record trigger_request =
  shouldRecord :: bool
  runLocation :: RunLocation
  checkRunSuiteId :: string
  req_targetTags :: "string list"

datatype event =
    CHECK_REGISTERED
  | CHECK_INPROGRESS "check option"
  | CHECK_FAILED "check option" json
  | CHECK_SUCCESSFUL "check option" json
  | CHECK_FINISHED "check option"
  | RUN_STARTED "check list"
  | RUN_FINISHED
  | ERROR error

text \<open>
  What the runner does to the outside, in order: calls on the socket client, on the REST
  transports, and events emitted to its listeners. \<open>SubscribeAcked\<close> marks the moment the
  awaited \<^verbatim>\<open>socketClient.subscribe\<close> promise resolved.
\<close>

datatype action =
    Connect
  | OnMessage
  | Subscribe string
  | SubscribeAcked
  | Trigger trigger_request
  | GetLogs jsval json
  | GetCheckRunData jsval json
  | SocketEnd
  | Emit event

text \<open>The promise \<^verbatim>\<open>this.checks\<close>: unset until \<^verbatim>\<open>scheduleAllChecks\<close> is called.\<close>

datatype checks_promise =
    Unset
  | Pending
  | Resolved "check list" "(string \<times> string) list"
  | Rejected error

text \<open>
  The promise of \<^verbatim>\<open>allChecksFinished\<close> with the counter its listener closes over. The
  listener on \<open>CHECK_FINISHED\<close> exists iff \<open>numChecks \<noteq> 0\<close>.
\<close>

datatype completion = Completion (numChecks: nat) (finishedCheckCount: nat) (resolved: bool)

text \<open>A timer created by \<^verbatim>\<open>setTimeout\<close>: its delay in ms and what its callback closes over.\<close>

datatype armed = Armed (t_delay: int) (t_runId: "string option") (t_check: check)

text \<open>A message listener suspended at one of the two asset fetches of the \<^verbatim>\<open>run-end\<close> branch.\<close>

datatype cont =
    AwaitLogs "check option" "(string \<times> json) list" jsval jsval
  | AwaitCheckRunData "check option" "(string \<times> json) list"

text \<open>
  Where \<^verbatim>\<open>run()\<close> is suspended: at \<^verbatim>\<open>SocketClient.connect()\<close>, at the \<^verbatim>\<open>subscribe\<close> of
  \<^verbatim>\<open>configureResultListener\<close>, at \<^verbatim>\<open>this.checks\<close>, at \<^verbatim>\<open>this.allChecksFinishedPromise\<close>,
  at \<^verbatim>\<open>socketClient.end()\<close>; and how it settled (\<open>Done None\<close>: resolved, \<open>Done (Some e)\<close>:
  rejected with \<open>e\<close>).
\<close>

datatype phase =
    NotStarted
  | Connecting
  | Subscribing
  | Triggering
  | AwaitingCompletion
  | Disconnecting
  | Done "error option"

text \<open>
  The state: the constructor's parameters (with \<open>uuid\<close>, the value that \<^verbatim>\<open>uuid.v4()\<close>
  returns in this run); the fields \<^verbatim>\<open>timeouts\<close> (a \<^verbatim>\<open>Map\<close>, in insertion order, from run
  ids to timer handles; a run id may be \<open>undefined\<close>), \<^verbatim>\<open>checks\<close> and
  \<^verbatim>\<open>allChecksFinishedPromise\<close>; and of the runtime: the timers that are armed, by handle
  (\<open>timers\<close>, \<open>next_timer\<close>), the listeners suspended at an asset fetch, by the id of the
  fetch (\<open>pending\<close>, \<open>next_fetch\<close>), the listeners suspended at \<^verbatim>\<open>await this.checks\<close> with
  their topic and parsed message (\<open>suspended\<close>), whether the message listener is attached, the
  trace of actions so far, and the errors of listeners whose promise rejected.
\<close>

record state =
  accountId :: string
  apiKey :: string
  targetTags :: "string list"
  location :: RunLocation
  timeout :: int
  verbose :: bool
  uuid :: string
  timeouts :: "(string option \<times> nat) list"
  checks :: checks_promise
  allChecksFinishedPromise :: "completion option"
  timers :: "(nat \<times> armed) list"
  next_timer :: nat
  pending :: "(nat \<times> cont) list"
  next_fetch :: nat
  suspended :: "(string \<times> json) list"
  handler_attached :: bool
  phase :: phase
  trace :: "action list"
  unhandled :: "error list"

text \<open>
  What the environment does: the caller starts \<^verbatim>\<open>run()\<close>; an awaited call returns
  (\<open>Inl\<close>: its promise rejects); the broker delivers a message, whose payload either is the
  text of a JSON value or makes \<^verbatim>\<open>JSON.parse\<close> throw; a timer fires.
\<close>

datatype raw = NotJson | JsonText json

datatype input =
    Start
  | ConnectReply "error + unit"
  | SubscribeReply "error + unit"
  | TriggerReply "error + (check list \<times> (string \<times> string) list)"
  | Message string raw
  | TimerFires nat
  | AssetReply nat "error + json"
  | EndReply "error + unit"

section \<open>The operations of \<^verbatim>\<open>CheckRunner\<close>\<close>

text \<open>The constructor: empty timer table, nothing else set.\<close>

definition CheckRunner ::
  "string \<Rightarrow> string \<Rightarrow> string list \<Rightarrow> RunLocation \<Rightarrow> int \<Rightarrow> bool \<Rightarrow> string \<Rightarrow> state" where
  "CheckRunner acc key tags loc t v u =
     \<lparr> accountId = acc, apiKey = key, targetTags = tags, location = loc, timeout = t,
       verbose = v, uuid = u, timeouts = [], checks = Unset, allChecksFinishedPromise = None,
       timers = [], next_timer = 0, pending = [], next_fetch = 0, suspended = [],
       handler_attached = False, phase = NotStarted, trace = [], unhandled = [] \<rparr>"

text \<open>A property key: \<open>undefined\<close> used as a key of a plain object is the name \<^verbatim>\<open>"undefined"\<close>.\<close>

definition prop_key :: "string option \<Rightarrow> string" where
  "prop_key k = (case k of None \<Rightarrow> ''undefined'' | Some s \<Rightarrow> s)"

text \<open>
  The assignment \<^verbatim>\<open>ret[name] = v\<close> of a string \<open>v\<close> to an object that was created by
  \<^verbatim>\<open>{}\<close>. The name \<^verbatim>\<open>__proto__\<close> is an accessor that the object inherits from
  \<^verbatim>\<open>Object.prototype\<close>: the assignment calls its setter, which ignores a value that is
  neither an object nor \<open>null\<close>, and no property is stored. Every other name becomes an own
  property, or is overwritten if it is one already.
\<close>

definition assign :: "string \<Rightarrow> string \<Rightarrow> (string \<times> string) list \<Rightarrow> (string \<times> string) list" where
  "assign name v ret = (if name = ''__proto__'' then ret else AList.update name v ret)"

text \<open>
  \<^verbatim>\<open>objectFlip\<close>: starting from \<^verbatim>\<open>{}\<close>, for each key of \<open>obj\<close> in order,
  \<^verbatim>\<open>ret[obj[key]] = key\<close>.
\<close>

definition objectFlip :: "(string \<times> string) list \<Rightarrow> (string \<times> string) list" where
  "objectFlip obj =
     fold (\<lambda>key ret. assign (prop_key (map_of obj key)) key ret) (map fst obj) []"

text \<open>\<^verbatim>\<open>topic.split('/')\<close> and reading a component that may be out of range.\<close>

fun push :: "char \<Rightarrow> string list \<Rightarrow> string list" where
  "push x [] = [[x]]"
| "push x (w # ws) = (x # w) # ws"

fun split :: "char \<Rightarrow> string \<Rightarrow> string list" where
  "split c [] = [[]]"
| "split c (x # xs) = (if x = c then [] # split c xs else push x (split c xs))"

definition component :: "string list \<Rightarrow> nat \<Rightarrow> string option" where
  "component xs i = (if i < length xs then Some (xs ! i) else None)"

text \<open>
  \<^verbatim>\<open>emit\<close>: the listeners run synchronously. The only listener the class itself registers
  is the counter of \<^verbatim>\<open>allChecksFinished\<close>.
\<close>

definition emit :: "event \<Rightarrow> state \<Rightarrow> state" where
  "emit e s =
     (let s1 = s\<lparr>trace := trace s @ [Emit e]\<rparr> in
      case e of
        CHECK_FINISHED c \<Rightarrow>
          (case allChecksFinishedPromise s1 of
             None \<Rightarrow> s1
           | Some (Completion n k r) \<Rightarrow>
               if n = 0 then s1
               else s1\<lparr>allChecksFinishedPromise :=
                         Some (Completion n (k + 1) (r \<or> k + 1 = n))\<rparr>)
      | _ \<Rightarrow> s1)"

definition allChecksFinished :: "nat \<Rightarrow> state \<Rightarrow> state" where
  "allChecksFinished n s = s\<lparr>allChecksFinishedPromise := Some (Completion n 0 (n = 0))\<rparr>"

definition clearTimeout :: "nat option \<Rightarrow> state \<Rightarrow> state" where
  "clearTimeout t s = (case t of None \<Rightarrow> s | Some h \<Rightarrow> s\<lparr>timers := AList.delete h (timers s)\<rparr>)"

definition disableTimeout :: "string option \<Rightarrow> state \<Rightarrow> state" where
  "disableTimeout checkRunId s =
     (let s1 = clearTimeout (map_of (timeouts s) checkRunId) s
      in s1\<lparr>timeouts := AList.delete checkRunId (timeouts s1)\<rparr>)"

text \<open>The body of the timer callback of \<^verbatim>\<open>scheduleAllChecks\<close>, and a timer firing.\<close>

definition timer_callback :: "string option \<Rightarrow> check \<Rightarrow> state \<Rightarrow> state" where
  "timer_callback checkRunId c s =
     emit (CHECK_FINISHED (Some c))
       (emit (CHECK_FAILED (Some c) (JStr ''Reached timeout''))
          (s\<lparr>timeouts := AList.delete checkRunId (timeouts s)\<rparr>))"

definition fire :: "nat \<Rightarrow> state \<Rightarrow> state" where
  "fire h s =
     (case map_of (timers s) h of
        None \<Rightarrow> s
      | Some (Armed d r c) \<Rightarrow> timer_callback r c (s\<lparr>timers := AList.delete h (timers s)\<rparr>))"

text \<open>\<^verbatim>\<open>scheduleAllChecks\<close>: up to the awaited trigger call, and from its response on.\<close>

definition scheduleAllChecks :: "string \<Rightarrow> state \<Rightarrow> state" where
  "scheduleAllChecks suite s =
     s\<lparr>trace := trace s @
          [Trigger \<lparr>shouldRecord = True, runLocation = location s,
                    checkRunSuiteId = suite, req_targetTags = targetTags s\<rparr>],
       checks := Pending\<rparr>"

definition arm :: "(string \<times> string) list \<Rightarrow> check \<Rightarrow> state \<Rightarrow> state" where
  "arm checkRunIds c s =
     (let checkRunId = map_of checkRunIds (check_id c); h = next_timer s
      in s\<lparr>timeouts := AList.update checkRunId h (timeouts s),
           timers := timers s @ [(h, Armed (timeout s * 1000) checkRunId c)],
           next_timer := h + 1\<rparr>)"

definition scheduleAllChecks_response ::
  "check list \<times> (string \<times> string) list \<Rightarrow> state \<Rightarrow> state" where
  "scheduleAllChecks_response resp s =
     (case resp of (cs, checkRunIds) \<Rightarrow>
        (let s1 = allChecksFinished (length cs) s;
             s2 = fold (arm checkRunIds) cs s1;
             s3 = emit (RUN_STARTED cs) s2
         in s3\<lparr>checks := Resolved cs (objectFlip checkRunIds)\<rparr>))"

text \<open>A listener whose promise rejects: nothing catches it.\<close>

definition reject :: "error \<Rightarrow> state \<Rightarrow> state" where
  "reject e s = s\<lparr>unhandled := unhandled s @ [e]\<rparr>"

text \<open>The end of the \<^verbatim>\<open>run-end\<close> branch, from each of its suspension points.\<close>

definition finish :: "check option \<Rightarrow> (string \<times> json) list \<Rightarrow> state \<Rightarrow> state" where
  "finish c result s =
     emit (CHECK_FINISHED c) (emit (CHECK_SUCCESSFUL c (JObj result)) s)"

definition after_logs ::
  "check option \<Rightarrow> (string \<times> json) list \<Rightarrow> jsval \<Rightarrow> jsval \<Rightarrow> state \<Rightarrow> state" where
  "after_logs c result region checkRunDataPath s =
     (case checkRunDataPath of
        Some p \<Rightarrow>
          if truthy checkRunDataPath \<and> (verbose s \<or> truthy (map_of result ''hasFailures''))
          then s\<lparr>trace := trace s @ [GetCheckRunData region p],
                 pending := pending s @ [(next_fetch s, AwaitCheckRunData c result)],
                 next_fetch := next_fetch s + 1\<rparr>
          else finish c result s
      | None \<Rightarrow> finish c result s)"

text \<open>
  The \<^verbatim>\<open>run-end\<close> branch after \<^verbatim>\<open>disableTimeout\<close>. \<^verbatim>\<open>const { result } = message\<close> followed by
  \<^verbatim>\<open>result.assets\<close> and the destructuring of the assets throws a \<open>TypeError\<close> unless
  \<open>message\<close> is an object whose \<open>result\<close> is an object whose \<open>assets\<close> is neither
  \<open>undefined\<close> nor \<open>null\<close>.
\<close>

definition assets_prop :: "json \<Rightarrow> string \<Rightarrow> jsval" where
  "assets_prop a name = (case a of JObj kvs \<Rightarrow> map_of kvs name | _ \<Rightarrow> None)"

definition run_end :: "check option \<Rightarrow> json \<Rightarrow> state \<Rightarrow> state" where
  "run_end c message s =
     (case message of
        JObj m \<Rightarrow>
          (case map_of m ''result'' of
             Some (JObj result) \<Rightarrow>
               (case map_of result ''assets'' of
                  None \<Rightarrow> reject TypeError s
                | Some JNull \<Rightarrow> reject TypeError s
                | Some a \<Rightarrow>
                    (let region = assets_prop a ''region'';
                         logPath = assets_prop a ''logPath'';
                         checkRunDataPath = assets_prop a ''checkRunDataPath''
                     in case logPath of
                          Some p \<Rightarrow>
                            if truthy logPath \<and>
                               (verbose s \<or> truthy (map_of result ''hasFailures''))
                            then s\<lparr>trace := trace s @ [GetLogs region p],
                                   pending := pending s @
                                     [(next_fetch s, AwaitLogs c result region checkRunDataPath)],
                                   next_fetch := next_fetch s + 1\<rparr>
                            else after_logs c result region checkRunDataPath s
                        | None \<Rightarrow> after_logs c result region checkRunDataPath s))
           | _ \<Rightarrow> reject TypeError s)
      | _ \<Rightarrow> reject TypeError s)"

text \<open>An asset fetch returns: the suspended listener goes on, or rejects with the error.\<close>

definition asset_reply :: "nat \<Rightarrow> error + json \<Rightarrow> state \<Rightarrow> state" where
  "asset_reply n r s =
     (case map_of (pending s) n of
        None \<Rightarrow> s
      | Some k \<Rightarrow>
          (let s1 = s\<lparr>pending := AList.delete n (pending s)\<rparr> in
           case r of
             Inl e \<Rightarrow> reject e s1
           | Inr v \<Rightarrow>
               (case k of
                  AwaitLogs c result region checkRunDataPath \<Rightarrow>
                    after_logs c (AList.update ''logs'' v result) region checkRunDataPath s1
                | AwaitCheckRunData c result \<Rightarrow>
                    finish c (AList.update ''checkRunData'' v result) s1)))"

text \<open>
  The message listener from \<^verbatim>\<open>await this.checks\<close> on, with the resolved value
  \<open>(cs, checkRunIds)\<close>. Where \<^verbatim>\<open>checkRunIds[checkRunId]\<close> names no own property, the
  code reads \<open>undefined\<close> or a member of \<^verbatim>\<open>Object.prototype\<close> (a function, or the
  prototype itself under \<^verbatim>\<open>__proto__\<close>); the id of a check is a string and \<^verbatim>\<open>===\<close> to
  none of these, so \<^verbatim>\<open>find\<close> returns \<open>undefined\<close> all the same.
\<close>

definition resolve_check :: "check list \<Rightarrow> (string \<times> string) list \<Rightarrow> string \<Rightarrow> check option" where
  "resolve_check cs checkRunIds topic =
     (let checkRunId = component (split CHR ''/'' topic) 4;
          checkId = map_of checkRunIds (prop_key checkRunId)
      in find (\<lambda>c. Some (check_id c) = checkId) cs)"

definition handler_resume ::
  "string \<Rightarrow> json \<Rightarrow> check list \<Rightarrow> (string \<times> string) list \<Rightarrow> state \<Rightarrow> state" where
  "handler_resume topic message cs checkRunIds s =
     (let topicComponents = split CHR ''/'' topic;
          checkRunId = component topicComponents 4;
          subtopic = component topicComponents 5;
          c = resolve_check cs checkRunIds topic
      in if checkRunId \<notin> fst ` set (timeouts s) then s
         else if subtopic = Some ''run-start'' then emit (CHECK_INPROGRESS c) s
         else if subtopic = Some ''run-end'' then run_end c message (disableTimeout checkRunId s)
         else if subtopic = Some ''error'' then
           emit (CHECK_FINISHED c) (emit (CHECK_FAILED c message) (disableTimeout checkRunId s))
         else s)"

text \<open>
  The message listener from its start. \<^verbatim>\<open>JSON.parse\<close> comes first; awaiting
  \<^verbatim>\<open>this.checks\<close> suspends the listener while the trigger call is pending, throws the
  trigger's error when it failed, and destructures \<open>undefined\<close> when it is still unset.
\<close>

definition on_message :: "string \<Rightarrow> raw \<Rightarrow> state \<Rightarrow> state" where
  "on_message topic rawMessage s =
     (case rawMessage of
        NotJson \<Rightarrow> reject SyntaxError s
      | JsonText message \<Rightarrow>
          (case checks s of
             Unset \<Rightarrow> reject TypeError s
           | Pending \<Rightarrow> s\<lparr>suspended := suspended s @ [(topic, message)]\<rparr>
           | Resolved cs checkRunIds \<Rightarrow> handler_resume topic message cs checkRunIds s
           | Rejected e \<Rightarrow> reject e s))"

text \<open>\<^verbatim>\<open>configureResultListener\<close> up to its awaited \<^verbatim>\<open>subscribe\<close>.\<close>

definition configureResultListener :: "string \<Rightarrow> state \<Rightarrow> state" where
  "configureResultListener suite s =
     s\<lparr>handler_attached := True,
       trace := trace s @
         [OnMessage,
          Subscribe (''account/'' @ accountId s @ ''/ad-hoc-check-results/'' @ suite @ ''/+/+'')]\<rparr>"

text \<open>
  \<^verbatim>\<open>run()\<close>, one definition for each stretch between two suspension points. After the
  \<^verbatim>\<open>try\<close> block or the \<^verbatim>\<open>catch\<close> block, \<^verbatim>\<open>finally\<close> calls \<^verbatim>\<open>socketClient.end()\<close> and
  awaits it.
\<close>

definition run_finally :: "state \<Rightarrow> state" where
  "run_finally s = s\<lparr>trace := trace s @ [SocketEnd], phase := Disconnecting\<rparr>"

definition run_continue :: "state \<Rightarrow> state" where
  "run_continue s =
     (if phase s = AwaitingCompletion \<and>
         (case allChecksFinishedPromise s of Some p \<Rightarrow> resolved p | None \<Rightarrow> False)
      then run_finally (emit RUN_FINISHED s)
      else s)"

definition run_start :: "state \<Rightarrow> state" where
  "run_start s =
     (if phase s = NotStarted then s\<lparr>trace := trace s @ [Connect], phase := Connecting\<rparr> else s)"

definition run_connected :: "error + unit \<Rightarrow> state \<Rightarrow> state" where
  "run_connected r s =
     (if phase s = Connecting then
        (case r of
           Inl e \<Rightarrow> s\<lparr>phase := Done (Some e)\<rparr>
         | Inr _ \<Rightarrow> (configureResultListener (uuid s) s)\<lparr>phase := Subscribing\<rparr>)
      else s)"

definition run_subscribed :: "error + unit \<Rightarrow> state \<Rightarrow> state" where
  "run_subscribed r s =
     (if phase s = Subscribing then
        (case r of
           Inl e \<Rightarrow> s\<lparr>phase := Done (Some e)\<rparr>
         | Inr _ \<Rightarrow>
             (scheduleAllChecks (uuid s) (s\<lparr>trace := trace s @ [SubscribeAcked]\<rparr>))
               \<lparr>phase := Triggering\<rparr>)
      else s)"

text \<open>
  The trigger call returns. The continuation of \<^verbatim>\<open>run()\<close> was the first to await
  \<^verbatim>\<open>this.checks\<close>, so it runs before the listeners suspended on the same promise.
\<close>

definition resume_suspended :: "state \<Rightarrow> state" where
  "resume_suspended s =
     (case checks s of
        Resolved cs checkRunIds \<Rightarrow>
          fold (\<lambda>(topic, message). handler_resume topic message cs checkRunIds)
            (suspended s) (s\<lparr>suspended := []\<rparr>)
      | Rejected e \<Rightarrow> fold (\<lambda>_. reject e) (suspended s) (s\<lparr>suspended := []\<rparr>)
      | _ \<Rightarrow> s)"

definition run_triggered ::
  "error + (check list \<times> (string \<times> string) list) \<Rightarrow> state \<Rightarrow> state" where
  "run_triggered r s =
     (if phase s = Triggering then
        (case r of
           Inl e \<Rightarrow> resume_suspended (run_finally (emit (ERROR e) (s\<lparr>checks := Rejected e\<rparr>)))
         | Inr resp \<Rightarrow>
             run_continue
               (resume_suspended ((scheduleAllChecks_response resp s)\<lparr>phase := AwaitingCompletion\<rparr>)))
      else s)"

definition run_ended :: "error + unit \<Rightarrow> state \<Rightarrow> state" where
  "run_ended r s =
     (if phase s = Disconnecting then
        s\<lparr>phase := Done (case r of Inl e \<Rightarrow> Some e | Inr _ \<Rightarrow> None)\<rparr>
      else s)"

text \<open>
  One turn of the event loop. After a listener or a timer callback has run, the continuation
  of \<^verbatim>\<open>run()\<close> runs if the completion promise it awaits has been resolved.
\<close>

fun step :: "input \<Rightarrow> state \<Rightarrow> state" where
  "step Start s = run_start s"
| "step (ConnectReply r) s = run_connected r s"
| "step (SubscribeReply r) s = run_subscribed r s"
| "step (TriggerReply r) s = run_triggered r s"
| "step (Message topic rawMessage) s =
     (if handler_attached s then run_continue (on_message topic rawMessage s) else s)"
| "step (TimerFires h) s = run_continue (fire h s)"
| "step (AssetReply n r) s = run_continue (asset_reply n r s)"
| "step (EndReply r) s = run_ended r s"

definition exec :: "input list \<Rightarrow> state \<Rightarrow> state" where
  "exec ins s = fold step ins s"

section \<open>A session of two checks\<close>

text \<open>
  The session of the specification's scenarios: checks \<open>A\<close> and \<open>B\<close>, which the backend
  runs as \<open>r1\<close> and \<open>r2\<close>, a timeout of 5 seconds, verbosity off.
\<close>

definition checkA :: check where
  "checkA = Check ''A'' JNull"

definition checkB :: check where
  "checkB = Check ''B'' JNull"

definition runner0 :: state where
  "runner0 = CheckRunner ''acc'' ''key'' [''tag''] (PUBLIC ''eu-central-1'') 5 False ''suite''"

definition boot :: "input list" where
  "boot = [Start, ConnectReply (Inr ()), SubscribeReply (Inr ())]"

definition triggered :: state where
  "triggered =
     exec (boot @ [TriggerReply (Inr ([checkA, checkB], [(''A'', ''r1''), (''B'', ''r2'')]))])
       runner0"

definition topic_of :: "string \<Rightarrow> string \<Rightarrow> string" where
  "topic_of r kind = ''account/acc/ad-hoc-check-results/suite/'' @ r @ ''/'' @ kind"

definition failed_result :: "(string \<times> json) list" where
  "failed_result =
     [(''hasFailures'', JBool True),
      (''assets'', JObj [(''region'', JStr ''eu-central-1''), (''logPath'', JStr ''logs/r1'')])]"

section \<open>More of the example session\<close>

text \<open>
  A result without failures and without asset paths, the trigger response of the example
  session, and what then happens in the specification's scenario: \<open>A\<close> starts and ends (the
  end notification arrives twice), \<open>B\<close> never answers and its timer fires.
\<close>

definition ok_result :: "(string \<times> json) list" where
  "ok_result =
     [(''hasFailures'', JBool False), (''assets'', JObj [(''region'', JStr ''eu-central-1'')])]"

definition two_checks :: "check list \<times> (string \<times> string) list" where
  "two_checks = ([checkA, checkB], [(''A'', ''r1''), (''B'', ''r2'')])"

definition scenario :: "input list" where
  "scenario =
     [Message (topic_of ''r1'' ''run-start'') (JsonText JNull),
      Message (topic_of ''r1'' ''run-end'') (JsonText (JObj [(''result'', JObj ok_result)])),
      Message (topic_of ''r1'' ''run-end'') (JsonText (JObj [(''result'', JObj ok_result)])),
      TimerFires 1]"

definition finished_session :: state where
  "finished_session = exec (boot @ TriggerReply (Inr two_checks) # scenario) runner0"

text \<open>
  A session that never completes: the end notification of \<open>A\<close> reports failures and a log
  path, the fetch of the logs is rejected, and the timers fire. (The timer of \<open>A\<close> was
  cleared by the end notification; that of \<open>B\<close> reports the timeout of \<open>B\<close>.)
\<close>

definition logs_wanted :: input where
  "logs_wanted =
     Message (topic_of ''r1'' ''run-end'') (JsonText (JObj [(''result'', JObj failed_result)]))"

definition blocked_session :: state where
  "blocked_session =
     exec (boot @ TriggerReply (Inr two_checks) #
             [logs_wanted, AssetReply 0 (Inl (Rejection ''getLogs'')), TimerFires 0, TimerFires 1])
       runner0"

section \<open>Observations on traces\<close>

text \<open>
  The events among the actions of a trace; the number of \<open>CHECK_FINISHED\<close> events and of
  terminal events (\<open>CHECK_FAILED\<close>, \<open>CHECK_SUCCESSFUL\<close>) whose check satisfies \<open>P\<close>.
\<close>

fun emitted :: "action list \<Rightarrow> event list" where
  "emitted [] = []"
| "emitted (Emit e # xs) = e # emitted xs"
| "emitted (a # xs) = emitted xs"

fun is_finished :: "(check option \<Rightarrow> bool) \<Rightarrow> action \<Rightarrow> bool" where
  "is_finished P (Emit (CHECK_FINISHED c)) = P c"
| "is_finished P _ = False"

definition finished :: "(check option \<Rightarrow> bool) \<Rightarrow> action list \<Rightarrow> nat" where
  "finished P tr = length (filter (is_finished P) tr)"

fun is_terminal :: "(check option \<Rightarrow> bool) \<Rightarrow> action \<Rightarrow> bool" where
  "is_terminal P (Emit (CHECK_FAILED c m)) = P c"
| "is_terminal P (Emit (CHECK_SUCCESSFUL c r)) = P c"
| "is_terminal P _ = False"

definition terminal :: "(check option \<Rightarrow> bool) \<Rightarrow> action list \<Rightarrow> nat" where
  "terminal P tr = length (filter (is_terminal P) tr)"

text \<open>
  \<open>paired None tr\<close>: the trace \<open>tr\<close> consists of what the listener and the timers do, and
  in it every terminal event is followed at once by \<open>CHECK_FINISHED\<close> for the same check, and
  every \<open>CHECK_FINISHED\<close> follows such an event. \<open>pairs\<close> asks the same of the check events
  and lets every other action pass.
\<close>

fun paired :: "check option option \<Rightarrow> action list \<Rightarrow> bool" where
  "paired None [] = True"
| "paired (Some c) [] = False"
| "paired (Some c) (a # xs) = (a = Emit (CHECK_FINISHED c) \<and> paired None xs)"
| "paired None (a # xs) =
     (case a of
        Emit e \<Rightarrow>
          (case e of
             CHECK_FAILED c m \<Rightarrow> paired (Some c) xs
           | CHECK_SUCCESSFUL c r \<Rightarrow> paired (Some c) xs
           | CHECK_INPROGRESS c \<Rightarrow> paired None xs
           | _ \<Rightarrow> False)
      | GetLogs region p \<Rightarrow> paired None xs
      | GetCheckRunData region p \<Rightarrow> paired None xs
      | _ \<Rightarrow> False)"

fun pairs :: "check option option \<Rightarrow> action list \<Rightarrow> bool" where
  "pairs None [] = True"
| "pairs (Some c) [] = False"
| "pairs (Some c) (a # xs) = (a = Emit (CHECK_FINISHED c) \<and> pairs None xs)"
| "pairs None (a # xs) =
     (case a of
        Emit e \<Rightarrow>
          (case e of
             CHECK_FAILED c m \<Rightarrow> pairs (Some c) xs
           | CHECK_SUCCESSFUL c r \<Rightarrow> pairs (Some c) xs
           | CHECK_FINISHED c \<Rightarrow> False
           | _ \<Rightarrow> pairs None xs)
      | _ \<Rightarrow> pairs None xs)"

fun check_level :: "action \<Rightarrow> bool" where
  "check_level (Emit (CHECK_INPROGRESS c)) = True"
| "check_level (Emit (CHECK_FAILED c m)) = True"
| "check_level (Emit (CHECK_SUCCESSFUL c r)) = True"
| "check_level (Emit (CHECK_FINISHED c)) = True"
| "check_level (GetLogs region p) = True"
| "check_level (GetCheckRunData region p) = True"
| "check_level a = False"

section \<open>Invariants of the runner\<close>

text \<open>
  The actions of \<^verbatim>\<open>run()\<close> up to the acknowledged subscription and up to the trigger call;
  they are determined by the constructor's parameters.
\<close>

definition config :: "state \<Rightarrow> string \<times> string \<times> RunLocation \<times> string list" where
  "config s = (accountId s, uuid s, location s, targetTags s)"

definition pre3 :: "state \<Rightarrow> action list" where
  "pre3 s =
     [Connect, OnMessage,
      Subscribe (''account/'' @ accountId s @ ''/ad-hoc-check-results/'' @ uuid s @ ''/+/+'')]"

definition pre5 :: "state \<Rightarrow> action list" where
  "pre5 s =
     pre3 s @
     [SubscribeAcked,
      Trigger \<lparr>shouldRecord = True, runLocation = location s,
                checkRunSuiteId = uuid s, req_targetTags = targetTags s\<rparr>]"

text \<open>
  Before the trigger response, and after a failed trigger, there is no timer, no table entry,
  no suspended fetch and no completion promise.
\<close>

definition idle :: "state \<Rightarrow> bool" where
  "idle s \<longleftrightarrow>
     timers s = [] \<and> pending s = [] \<and> timeouts s = [] \<and> allChecksFinishedPromise s = None"

text \<open>
  After the trigger response: the counter of \<^verbatim>\<open>allChecksFinished\<close> counts the
  \<open>CHECK_FINISHED\<close> events of the trace and its promise is resolved iff their number has
  reached \<open>n\<close>; every entry of the timer table holds an armed timer of the same run id; and
  \<open>load P\<close> counts what can still or did finish: armed timers, suspended fetches and
  \<open>CHECK_FINISHED\<close> events whose check satisfies \<open>P\<close>.
\<close>

definition tracked :: "nat \<Rightarrow> state \<Rightarrow> bool" where
  "tracked n s \<longleftrightarrow>
     (\<exists>p. allChecksFinishedPromise s = Some p
        \<and> numChecks p = n
        \<and> (n \<noteq> 0 \<longrightarrow> finishedCheckCount p = finished (\<lambda>_. True) (trace s))
        \<and> (resolved p \<longleftrightarrow> n \<le> finished (\<lambda>_. True) (trace s)))"

definition table_ok :: "state \<Rightarrow> bool" where
  "table_ok s \<longleftrightarrow>
     (\<forall>r h. map_of (timeouts s) r = Some h \<longrightarrow>
        (\<exists>d c. map_of (timers s) h = Some (Armed d r c)))"

fun cont_check :: "cont \<Rightarrow> check option" where
  "cont_check (AwaitLogs c result region p) = c"
| "cont_check (AwaitCheckRunData c result) = c"

definition load :: "(check option \<Rightarrow> bool) \<Rightarrow> state \<Rightarrow> nat" where
  "load P s =
     length (filter (\<lambda>t. P (Some (t_check (snd t)))) (timers s))
     + length (filter (\<lambda>k. P (cont_check (snd k))) (pending s))
     + finished P (trace s)"

text \<open>
  What a callback may do to the state (\<open>grows\<close>, \<open>moves\<close>), and what the code after
  \<^verbatim>\<open>disableTimeout\<close> may do for the check \<open>c\<close> (\<open>tail\<close>).
\<close>

definition grows :: "state \<Rightarrow> state \<Rightarrow> bool" where
  "grows s s' \<longleftrightarrow>
     phase s' = phase s \<and> checks s' = checks s \<and> config s' = config s
     \<and> (\<exists>ext. trace s' = trace s @ ext \<and> paired None ext)"

definition tail :: "check option \<Rightarrow> state \<Rightarrow> state \<Rightarrow> bool" where
  "tail c s s' \<longleftrightarrow>
     grows s s' \<and> timers s' = timers s \<and> timeouts s' = timeouts s
     \<and> (\<forall>n. tracked n s \<longrightarrow> tracked n s')
     \<and> (\<forall>P. load P s' \<le> load P s + (if P c then 1 else 0))"

definition moves :: "state \<Rightarrow> state \<Rightarrow> bool" where
  "moves s s' \<longleftrightarrow>
     grows s s'
     \<and> (table_ok s \<longrightarrow> table_ok s')
     \<and> (\<forall>n. tracked n s \<longrightarrow> tracked n s')
     \<and> (\<forall>h a. map_of (timers s') h = Some a \<longrightarrow> map_of (timers s) h = Some a)
     \<and> fst ` set (timeouts s') \<subseteq> fst ` set (timeouts s)"

text \<open>
  The trace of a session whose trigger succeeded with the checks \<open>cs\<close>; \<open>mid\<close> holds
  between a callback and the continuation of \<^verbatim>\<open>run()\<close>, \<open>live\<close> after it. \<open>inv\<close> holds
  in every state that \<^verbatim>\<open>run()\<close> reaches from the constructor.
\<close>

definition shape :: "check list \<Rightarrow> state \<Rightarrow> bool" where
  "shape cs s \<longleftrightarrow>
     (\<exists>rest. trace s = pre5 s @ Emit (RUN_STARTED cs) # rest
        \<and> (if phase s = AwaitingCompletion
            then paired None rest
            else (phase s = Disconnecting \<or> (\<exists>r. phase s = Done r))
               \<and> (\<exists>r1 r2. rest = r1 @ Emit RUN_FINISHED # SocketEnd # r2
                     \<and> paired None r1 \<and> paired None r2
                     \<and> finished (\<lambda>_. True) r1 = length cs)))"

definition mid :: "check list \<Rightarrow> state \<Rightarrow> bool" where
  "mid cs s \<longleftrightarrow>
     tracked (length cs) s \<and> table_ok s \<and> load (\<lambda>_. True) s \<le> length cs \<and> shape cs s"

definition live :: "check list \<Rightarrow> state \<Rightarrow> bool" where
  "live cs s \<longleftrightarrow>
     mid cs s \<and> (phase s = AwaitingCompletion \<longrightarrow> finished (\<lambda>_. True) (trace s) < length cs)"

definition inv :: "state \<Rightarrow> bool" where
  "inv s \<longleftrightarrow>
     (case checks s of
        Unset \<Rightarrow>
          idle s \<and>
          (phase s = NotStarted \<and> trace s = []
           \<or> (phase s = Connecting \<or> (\<exists>e. phase s = Done (Some e))) \<and> trace s = [Connect]
           \<or> (phase s = Subscribing \<or> (\<exists>e. phase s = Done (Some e))) \<and> trace s = pre3 s)
      | Pending \<Rightarrow> idle s \<and> phase s = Triggering \<and> trace s = pre5 s
      | Rejected e \<Rightarrow>
          idle s \<and> (phase s = Disconnecting \<or> (\<exists>r. phase s = Done r))
          \<and> trace s = pre5 s @ [Emit (ERROR e), SocketEnd]
      | Resolved cs ids \<Rightarrow> live cs s)"

text \<open>
  With distinct check ids and an injective mapping, every armed timer belongs to a check of
  the response under the run id the backend gave it, and for each check at most one timer,
  suspended fetch or \<open>CHECK_FINISHED\<close> event exists.
\<close>

definition attributed :: "check list \<Rightarrow> (string \<times> string) list \<Rightarrow> state \<Rightarrow> bool" where
  "attributed cs ids s \<longleftrightarrow>
     (\<forall>h d r c. map_of (timers s) h = Some (Armed d r c) \<longrightarrow>
        c \<in> set cs \<and> r = map_of ids (check_id c))
     \<and> (\<forall>c. load (\<lambda>x. x = Some c) s \<le> 1)"

text \<open>
  The ids by which the replies to the asset fetches find the listener that waits for them are
  handed out in increasing order.
\<close>

definition fresh :: "state \<Rightarrow> bool" where
  "fresh s \<longleftrightarrow> (\<forall>i\<in>fst ` set (pending s). i < next_fetch s)"

section \<open>The example session, evaluated\<close>

lemma triggered_state:
  "triggered =
   \<lparr>accountId = ''acc'', apiKey = ''key'', targetTags = [''tag''],
    location = PUBLIC ''eu-central-1'', timeout = 5, verbose = False,
    uuid = ''suite'', timeouts = [(Some ''r1'', 0), (Some ''r2'', 1)],
    checks = Resolved [checkA, checkB] [(''r1'', ''A''), (''r2'', ''B'')],
    allChecksFinishedPromise = Some (Completion 2 0 False),
    timers = [(0, Armed 5000 (Some ''r1'') checkA), (1, Armed 5000 (Some ''r2'') checkB)],
    next_timer = 2, pending = [], next_fetch = 0, suspended = [],
    handler_attached = True, phase = AwaitingCompletion,
    trace =
      [Connect, OnMessage,
       Subscribe ''account/acc/ad-hoc-check-results/suite/+/+'',
       SubscribeAcked,
       Trigger
        \<lparr>shouldRecord = True, runLocation = PUBLIC ''eu-central-1'',
           checkRunSuiteId = ''suite'', req_targetTags = [''tag'']\<rparr>,
       Emit (RUN_STARTED [checkA, checkB])],
    unhandled = []\<rparr>"
  by code_simp

lemma topic_components:
  "component (split CHR ''/'' (topic_of ''r1'' ''run-start'')) 4 = Some ''r1''"
  "component (split CHR ''/'' (topic_of ''r1'' ''run-start'')) 5 = Some ''run-start''"
  "component (split CHR ''/'' (topic_of ''r1'' ''run-end'')) 4 = Some ''r1''"
  "component (split CHR ''/'' (topic_of ''r1'' ''run-end'')) 5 = Some ''run-end''"
  "component (split CHR ''/'' (topic_of ''r9'' ''run-end'')) 4 = Some ''r9''"
  by code_simp+

section \<open>The start notification\<close>

lemma on_message_run_start:
  assumes "checks s = Resolved cs ids"
      and "component (split CHR ''/'' topic) 4 \<in> fst ` set (timeouts s)"
      and "component (split CHR ''/'' topic) 5 = Some ''run-start''"
  shows "on_message topic (JsonText m) s =
           s\<lparr>trace := trace s @ [Emit (CHECK_INPROGRESS (resolve_check cs ids topic))]\<rparr>"
  using assms by (simp add: on_message_def handler_resume_def emit_def Let_def)

text \<open>
  Claim C10. A \<^verbatim>\<open>run-start\<close> message for a run id that is in the timer table emits
  \<open>CHECK_INPROGRESS\<close> and changes nothing else: the timer stays armed, the table keeps
  the entry, and nothing records that the check has started. So \<open>n\<close> such messages in a
  row emit \<open>n\<close> events for the same check.
\<close>

theorem run_start_not_once_only:
  assumes "checks s = Resolved cs ids"
      and "component (split CHR ''/'' topic) 4 \<in> fst ` set (timeouts s)"
      and "component (split CHR ''/'' topic) 5 = Some ''run-start''"
  shows "(on_message topic (JsonText m) ^^ n) s =
           s\<lparr>trace := trace s @
                replicate n (Emit (CHECK_INPROGRESS (resolve_check cs ids topic)))\<rparr>"
proof (induction n)
  case 0
  show ?case by simp
next
  case (Suc n)
  let ?e = "Emit (CHECK_INPROGRESS (resolve_check cs ids topic))"
  let ?s = "s\<lparr>trace := trace s @ replicate n ?e\<rparr>"
  have "on_message topic (JsonText m) ?s = ?s\<lparr>trace := trace ?s @ [?e]\<rparr>"
    by (rule on_message_run_start) (use assms in simp_all)
  with Suc show ?case
    by (simp add: replicate_append_same)
qed

text \<open>
  Two start notifications for \<open>r1\<close> in the example session.
\<close>

theorem run_start_not_once_only_witness:
  "(on_message (topic_of ''r1'' ''run-start'') (JsonText JNull) ^^ 2) triggered =
     triggered\<lparr>trace := trace triggered @
       [Emit (CHECK_INPROGRESS (Some checkA)), Emit (CHECK_INPROGRESS (Some checkA))]\<rparr>
   \<and> timers ((on_message (topic_of ''r1'' ''run-start'') (JsonText JNull) ^^ 2) triggered)
       = timers triggered"
proof -
  have c: "checks triggered = Resolved [checkA, checkB] [(''r1'', ''A''), (''r2'', ''B'')]"
    by (simp add: triggered_state)
  have a: "component (split CHR ''/'' (topic_of ''r1'' ''run-start'')) 4
             \<in> fst ` set (timeouts triggered)"
    by (simp add: triggered_state topic_components)
  have r: "resolve_check [checkA, checkB] [(''r1'', ''A''), (''r2'', ''B'')]
             (topic_of ''r1'' ''run-start'') = Some checkA"
    by (simp add: resolve_check_def topic_components prop_key_def checkA_def checkB_def)
  show ?thesis
    using run_start_not_once_only [OF c a topic_components(2), where m = JNull and n = 2] r
    by (simp add: numeral_2_eq_2)
qed

section \<open>Messages that concern no armed check run\<close>

text \<open>
  Claim C9, as the code has it. Once the trigger response has resolved \<^verbatim>\<open>this.checks\<close>, a
  message whose payload parses as JSON and whose topic has no known kind in its sixth segment
  (which includes every topic with fewer than six segments), or whose run id is not in the
  timer table, leaves the state as it is: no event, no change, no rejection. The same holds
  for a listener that was suspended on \<^verbatim>\<open>this.checks\<close> and is resumed with its value.
\<close>

theorem malformed_or_unknown_is_noop:
  assumes "component (split CHR ''/'' topic) 5 \<notin> {Some ''run-start'', Some ''run-end'', Some ''error''}
           \<or> component (split CHR ''/'' topic) 4 \<notin> fst ` set (timeouts s)"
  shows "handler_resume topic m cs ids s = s
       \<and> (checks s = Resolved cs ids \<longrightarrow> on_message topic (JsonText m) s = s)"
  using assms by (auto simp: on_message_def handler_resume_def Let_def)

text \<open>
  An unknown run id and a topic of two segments, in the example session.
\<close>

theorem malformed_or_unknown_is_noop_witness:
  "on_message (topic_of ''r9'' ''run-end'') (JsonText JNull) triggered = triggered
   \<and> on_message ''account/acc'' (JsonText JNull) triggered = triggered"
proof -
  have c: "checks triggered = Resolved [checkA, checkB] [(''r1'', ''A''), (''r2'', ''B'')]"
    by (simp add: triggered_state)
  have u: "component (split CHR ''/'' (topic_of ''r9'' ''run-end'')) 5
             \<notin> {Some ''run-start'', Some ''run-end'', Some ''error''}
           \<or> component (split CHR ''/'' (topic_of ''r9'' ''run-end'')) 4
             \<notin> fst ` set (timeouts triggered)"
    by (simp add: triggered_state topic_components)
  have m: "component (split CHR ''/'' ''account/acc'') 5
             \<notin> {Some ''run-start'', Some ''run-end'', Some ''error''}
           \<or> component (split CHR ''/'' ''account/acc'') 4 \<notin> fst ` set (timeouts triggered)"
    by (simp add: component_def)
  show ?thesis
    using malformed_or_unknown_is_noop [OF u, of JNull "[checkA, checkB]" "[(''r1'', ''A''), (''r2'', ''B'')]"]
      malformed_or_unknown_is_noop [OF m, of JNull "[checkA, checkB]" "[(''r1'', ''A''), (''r2'', ''B'')]"] c
    by simp
qed

text \<open>
  Claim C9 as stated fails: \<^verbatim>\<open>JSON.parse\<close> runs before the topic is looked at and nothing
  catches what it throws. A message on a topic without a run id whose payload is not JSON
  makes the listener reject with a \<open>SyntaxError\<close>.
\<close>

theorem unparsable_payload_counterexample:
  "component (split CHR ''/'' ''account/acc'') 4 = None
   \<and> unhandled triggered = []
   \<and> unhandled (on_message ''account/acc'' NotJson triggered) = [SyntaxError]"
  by (simp add: triggered_state on_message_def reject_def component_def)


section \<open>What the primitives leave alone\<close>

lemma emit_fields [simp]:
  "trace (emit e s) = trace s @ [Emit e]"
  "timers (emit e s) = timers s"
  "timeouts (emit e s) = timeouts s"
  "pending (emit e s) = pending s"
  "next_fetch (emit e s) = next_fetch s"
  "next_timer (emit e s) = next_timer s"
  "suspended (emit e s) = suspended s"
  "unhandled (emit e s) = unhandled s"
  "checks (emit e s) = checks s"
  "phase (emit e s) = phase s"
  "verbose (emit e s) = verbose s"
  "timeout (emit e s) = timeout s"
  "handler_attached (emit e s) = handler_attached s"
  "accountId (emit e s) = accountId s"
  "uuid (emit e s) = uuid s"
  "location (emit e s) = location s"
  "targetTags (emit e s) = targetTags s"
  by (simp_all add: emit_def Let_def split: event.split option.split completion.split)

lemma disableTimeout_fields [simp]:
  "trace (disableTimeout r s) = trace s"
  "timeouts (disableTimeout r s) = AList.delete r (timeouts s)"
  "timers (disableTimeout r s) =
     (case map_of (timeouts s) r of None \<Rightarrow> timers s | Some h \<Rightarrow> AList.delete h (timers s))"
  "pending (disableTimeout r s) = pending s"
  "next_fetch (disableTimeout r s) = next_fetch s"
  "next_timer (disableTimeout r s) = next_timer s"
  "suspended (disableTimeout r s) = suspended s"
  "unhandled (disableTimeout r s) = unhandled s"
  "checks (disableTimeout r s) = checks s"
  "phase (disableTimeout r s) = phase s"
  "verbose (disableTimeout r s) = verbose s"
  "timeout (disableTimeout r s) = timeout s"
  "handler_attached (disableTimeout r s) = handler_attached s"
  "allChecksFinishedPromise (disableTimeout r s) = allChecksFinishedPromise s"
  "accountId (disableTimeout r s) = accountId s"
  "uuid (disableTimeout r s) = uuid s"
  "location (disableTimeout r s) = location s"
  "targetTags (disableTimeout r s) = targetTags s"
  by (simp_all add: disableTimeout_def clearTimeout_def Let_def split: option.split)

lemma finish_fields [simp]:
  "trace (finish c result s) =
     trace s @ [Emit (CHECK_SUCCESSFUL c (JObj result)), Emit (CHECK_FINISHED c)]"
  "timers (finish c result s) = timers s"
  "timeouts (finish c result s) = timeouts s"
  "pending (finish c result s) = pending s"
  "next_fetch (finish c result s) = next_fetch s"
  "next_timer (finish c result s) = next_timer s"
  "suspended (finish c result s) = suspended s"
  "unhandled (finish c result s) = unhandled s"
  "checks (finish c result s) = checks s"
  "phase (finish c result s) = phase s"
  "verbose (finish c result s) = verbose s"
  "timeout (finish c result s) = timeout s"
  "handler_attached (finish c result s) = handler_attached s"
  "accountId (finish c result s) = accountId s"
  "uuid (finish c result s) = uuid s"
  "location (finish c result s) = location s"
  "targetTags (finish c result s) = targetTags s"
  by (simp_all add: finish_def)

section \<open>Per-check timeouts\<close>

lemma arm_fields [simp]:
  "timers (arm ids c s) =
     timers s @ [(next_timer s, Armed (timeout s * 1000) (map_of ids (check_id c)) c)]"
  "next_timer (arm ids c s) = Suc (next_timer s)"
  "timeout (arm ids c s) = timeout s"
  "timeouts (arm ids c s) = AList.update (map_of ids (check_id c)) (next_timer s) (timeouts s)"
  "trace (arm ids c s) = trace s"
  "pending (arm ids c s) = pending s"
  "phase (arm ids c s) = phase s"
  "allChecksFinishedPromise (arm ids c s) = allChecksFinishedPromise s"
  by (simp_all add: arm_def Let_def)

lemma fold_arm_frame [simp]:
  "next_timer (fold (arm ids) cs s) = next_timer s + length cs"
  "timeout (fold (arm ids) cs s) = timeout s"
  "trace (fold (arm ids) cs s) = trace s"
  "pending (fold (arm ids) cs s) = pending s"
  "phase (fold (arm ids) cs s) = phase s"
  "allChecksFinishedPromise (fold (arm ids) cs s) = allChecksFinishedPromise s"
  by (induction cs arbitrary: s) simp_all

lemma fold_arm_timers:
  "timers (fold (arm ids) cs s) =
     timers s @ map (\<lambda>(h, c). (h, Armed (timeout s * 1000) (map_of ids (check_id c)) c))
                  (zip [next_timer s ..< next_timer s + length cs] cs)"
proof (induction cs arbitrary: s)
  case Nil
  show ?case by simp
next
  case (Cons c cs)
  have "[next_timer s ..< next_timer s + Suc (length cs)] =
          next_timer s # [Suc (next_timer s) ..< next_timer s + Suc (length cs)]"
    by (rule upt_conv_Cons) simp
  with Cons [of "arm ids c s"] show ?case by simp
qed

lemma fire_armed:
  assumes "map_of (timers s) h = Some (Armed d r c)"
  shows "fire h s =
           emit (CHECK_FINISHED (Some c))
             (emit (CHECK_FAILED (Some c) (JStr ''Reached timeout''))
                (s\<lparr>timers := AList.delete h (timers s),
                   timeouts := AList.delete r (timeouts s)\<rparr>))"
  using assms by (simp add: fire_def timer_callback_def)

text \<open>
  Claim C6. Processing the trigger response arms one timer for each selected check, in
  order, with the delay \<open>timeout * 1000\<close> ms, closing over the check and its run id. When an
  armed timer fires, its callback deletes the table entry of its own run id, then emits
  \<open>CHECK_FAILED\<close> with the reason \<^verbatim>\<open>Reached timeout\<close> and \<open>CHECK_FINISHED\<close> for its own
  check, and nothing else: the entries of all other run ids, all other timers, the suspended
  asset fetches and the phase of \<^verbatim>\<open>run()\<close> are as before.
\<close>

theorem per_check_timeout:
  "timers (scheduleAllChecks_response (cs, ids) s) =
     timers s @ map (\<lambda>(h, c). (h, Armed (timeout s * 1000) (map_of ids (check_id c)) c))
                  (zip [next_timer s ..< next_timer s + length cs] cs)
   \<and> (map_of (timers s) h = Some (Armed d r c) \<longrightarrow>
        trace (fire h s) =
          trace s @ [Emit (CHECK_FAILED (Some c) (JStr ''Reached timeout'')),
                     Emit (CHECK_FINISHED (Some c))]
      \<and> timeouts (fire h s) = AList.delete r (timeouts s)
      \<and> (\<forall>r'. r' \<noteq> r \<longrightarrow> map_of (timeouts (fire h s)) r' = map_of (timeouts s) r')
      \<and> timers (fire h s) = AList.delete h (timers s)
      \<and> (\<forall>h'. h' \<noteq> h \<longrightarrow> map_of (timers (fire h s)) h' = map_of (timers s) h')
      \<and> pending (fire h s) = pending s
      \<and> checks (fire h s) = checks s
      \<and> phase (fire h s) = phase s
      \<and> unhandled (fire h s) = unhandled s)"
proof -
  have arming: "timers (scheduleAllChecks_response (cs, ids) s) =
     timers s @ map (\<lambda>(h, c). (h, Armed (timeout s * 1000) (map_of ids (check_id c)) c))
                  (zip [next_timer s ..< next_timer s + length cs] cs)"
    by (simp add: scheduleAllChecks_response_def allChecksFinished_def Let_def fold_arm_timers)
  show ?thesis
    using arming by (auto simp: fire_armed delete_conv')
qed

text \<open>
  In the example session the timer of \<open>B\<close> fires: \<open>A\<close> stays armed and the run goes on.
\<close>

theorem per_check_timeout_witness:
  "timers triggered =
     [(0, Armed 5000 (Some ''r1'') checkA), (1, Armed 5000 (Some ''r2'') checkB)]
   \<and> trace (fire 1 triggered) =
       trace triggered @ [Emit (CHECK_FAILED (Some checkB) (JStr ''Reached timeout'')),
                          Emit (CHECK_FINISHED (Some checkB))]
   \<and> timeouts (fire 1 triggered) = [(Some ''r1'', 0)]
   \<and> timers (fire 1 triggered) = [(0, Armed 5000 (Some ''r1'') checkA)]
   \<and> phase (fire 1 triggered) = AwaitingCompletion"
proof -
  have t: "map_of (timers triggered) 1 = Some (Armed 5000 (Some ''r2'') checkB)"
    by (simp add: triggered_state)
  show ?thesis
    using per_check_timeout [of "[]" "[]" triggered 1 5000 "Some ''r2''" checkB] t
    by (simp add: triggered_state)
qed


section \<open>Fetch ids are fresh\<close>

lemma fresh_cong:
  "pending s' = pending s \<Longrightarrow> next_fetch s' = next_fetch s \<Longrightarrow> fresh s' = fresh s"
  by (simp add: fresh_def)

lemma fresh_emit [simp]: "fresh (emit e s) = fresh s"
  by (simp add: fresh_def)

lemma fresh_finish [simp]: "fresh (finish c result s) = fresh s"
  by (simp add: fresh_def)

lemma fresh_reject [simp]: "fresh (reject e s) = fresh s"
  by (simp add: fresh_def reject_def)

lemma fresh_disableTimeout [simp]: "fresh (disableTimeout r s) = fresh s"
  by (simp add: fresh_def)












lemma next_fetch_fold_arm [simp]: "next_fetch (fold (arm ids) cs s) = next_fetch s"
  by (induction cs arbitrary: s) (simp_all add: arm_def Let_def)





section \<open>The end notification and its assets\<close>

lemma map_of_snoc_fresh:
  "n \<notin> fst ` set xs \<Longrightarrow> map_of (xs @ [(n, k)]) n = Some k"
  by (induction xs) auto











text \<open>
  When a fetch fails instead, the listener rejects with the error of the fetch: it emits
  nothing for its check, whose timer \<^verbatim>\<open>disableTimeout\<close> has cleared before the fetch.
\<close>

lemma asset_reply_failure:
  assumes "map_of (pending s) n = Some k"
  shows "trace (asset_reply n (Inl e) s) = trace s
       \<and> unhandled (asset_reply n (Inl e) s) = unhandled s @ [e]
       \<and> timers (asset_reply n (Inl e) s) = timers s
       \<and> timeouts (asset_reply n (Inl e) s) = timeouts s"
  using assms by (simp add: asset_reply_def Let_def reject_def)

section \<open>Correlation of run ids with checks\<close>

lemma map_of_assign:
  "map_of (assign name v ret) r =
     (if r = name \<and> name \<noteq> ''__proto__'' then Some v else map_of ret r)"
  by (simp add: assign_def update_conv')

lemma flip_fold:
  "\<forall>k'\<in>set keys. f k' = r \<longrightarrow> k' = k \<Longrightarrow> r \<noteq> ''__proto__'' \<Longrightarrow>
   map_of (fold (\<lambda>key ret. assign (f key) key ret) keys acc) r =
     (if k \<in> set keys \<and> f k = r then Some k else map_of acc r)"
proof (induction keys arbitrary: acc)
  case Nil
  then show ?case by simp
next
  case (Cons a keys)
  have rest: "\<forall>k'\<in>set keys. f k' = r \<longrightarrow> k' = k"
    using Cons.prems by simp
  have head: "f a = r \<Longrightarrow> a = k"
    using Cons.prems by simp
  have "map_of (fold (\<lambda>key ret. assign (f key) key ret) (a # keys) acc) r =
        (if k \<in> set keys \<and> f k = r then Some k else map_of (assign (f a) a acc) r)"
    using Cons.IH [OF rest Cons.prems(2)] by simp
  also have "\<dots> = (if k \<in> set (a # keys) \<and> f k = r then Some k else map_of acc r)"
    using head Cons.prems(2) by (cases "f a = r") (auto simp: map_of_assign)
  finally show ?case .
qed

lemma flip_fold_proto:
  "map_of (fold (\<lambda>key ret. assign (f key) key ret) keys acc) ''__proto__'' =
     map_of acc ''__proto__''"
  by (induction keys arbitrary: acc) (auto simp: map_of_assign)

lemma distinct_snd_inj:
  "distinct (map snd xs) \<Longrightarrow> (a, r) \<in> set xs \<Longrightarrow> (b, r) \<in> set xs \<Longrightarrow> a = b"
proof -
  assume "distinct (map snd xs)" and a: "(a, r) \<in> set xs" and b: "(b, r) \<in> set xs"
  then have "inj_on snd (set xs)" by (simp add: distinct_map)
  from inj_onD [OF this _ a b] show "a = b" by simp
qed

lemma objectFlip_lookup:
  assumes keys: "distinct (map fst obj)"
      and inj: "distinct (map snd obj)"
      and kr: "(k, r) \<in> set obj"
      and r: "r \<noteq> ''__proto__''"
  shows "map_of (objectFlip obj) r = Some k"
proof -
  let ?f = "\<lambda>key. prop_key (map_of obj key)"
  have fk: "?f k = r"
    using keys kr by (simp add: prop_key_def)
  have uniq: "\<forall>k'\<in>set (map fst obj). ?f k' = r \<longrightarrow> k' = k"
  proof (intro ballI impI)
    fix k' assume k': "k' \<in> set (map fst obj)" and eq: "?f k' = r"
    then obtain r' where mem: "(k', r') \<in> set obj" by auto
    with keys have "map_of obj k' = Some r'" by simp
    with eq have "r' = r" by (simp add: prop_key_def)
    with mem inj kr show "k' = k" by (blast dest: distinct_snd_inj)
  qed
  have "k \<in> set (map fst obj)" using kr by force
  with flip_fold [OF uniq r, of "[]"] fk show ?thesis
    by (simp add: objectFlip_def)
qed

lemma objectFlip_proto: "map_of (objectFlip obj) ''__proto__'' = None"
  by (simp add: objectFlip_def flip_fold_proto)

text \<open>
  Claim C4. Let the backend's mapping from check ids to run ids be injective, and let it map
  the check id \<open>k\<close> to the run id \<open>r\<close>. The claim is that a message whose topic has \<open>r\<close>
  as its fifth segment resolves, through \<^verbatim>\<open>objectFlip\<close> and the listener's \<^verbatim>\<open>find\<close>, to
  the check with the id \<open>k\<close>. The code does so for every run id but \<^verbatim>\<open>__proto__\<close>: that
  one \<^verbatim>\<open>objectFlip\<close> does not store, and the message resolves to no check at all. In no
  case does a message resolve to a check with another run id. (That the keys of the mapping
  are distinct is what being an object means.)
\<close>

theorem objectFlip_loses_proto:
  assumes "distinct (map fst checkRunIds)"
      and "distinct (map snd checkRunIds)"
      and "(k, r) \<in> set checkRunIds"
      and "component (split CHR ''/'' topic) 4 = Some r"
  shows "resolve_check cs (objectFlip checkRunIds) topic =
           (if r = ''__proto__'' then None else find (\<lambda>c. check_id c = k) cs)
       \<and> (\<forall>c. resolve_check cs (objectFlip checkRunIds) topic = Some c \<longrightarrow>
              c \<in> set cs \<and> map_of checkRunIds (check_id c) = Some r)"
proof -
  have res: "resolve_check cs (objectFlip checkRunIds) topic =
               (if r = ''__proto__'' then None else find (\<lambda>c. check_id c = k) cs)"
  proof (cases "r = ''__proto__''")
    case True
    have "find (\<lambda>c. False) cs = None" by (induction cs) simp_all
    with True assms(4) show ?thesis
      by (simp add: resolve_check_def prop_key_def objectFlip_proto)
  next
    case False
    from objectFlip_lookup [OF assms(1-3) False] assms(4) False show ?thesis
      by (simp add: resolve_check_def prop_key_def)
  qed
  have "c \<in> set cs \<and> map_of checkRunIds (check_id c) = Some r"
    if "find (\<lambda>c. check_id c = k) cs = Some c" for c
  proof -
    from that have "c \<in> set cs" "check_id c = k"
      by (auto simp: find_Some_iff)
    with assms(1,3) show ?thesis by simp
  qed
  with res show ?thesis by (simp split: if_splits)
qed

text \<open>
  The mapping \<open>{A: __proto__, B: r2}\<close>: a message for the run id \<^verbatim>\<open>__proto__\<close> resolves to
  no check, although \<open>A\<close> is among the checks; a message for \<open>r2\<close> is about \<open>B\<close>.
\<close>

theorem objectFlip_loses_proto_witness:
  "resolve_check [Check ''A'' JNull, Check ''B'' JNull]
     (objectFlip [(''A'', ''__proto__''), (''B'', ''r2'')])
     ''account/acc/ad-hoc-check-results/suite/__proto__/run-end'' = None
   \<and> find (\<lambda>c. check_id c = ''A'') [Check ''A'' JNull, Check ''B'' JNull] = Some (Check ''A'' JNull)
   \<and> resolve_check [Check ''A'' JNull, Check ''B'' JNull]
       (objectFlip [(''A'', ''__proto__''), (''B'', ''r2'')])
       ''account/acc/ad-hoc-check-results/suite/r2/run-end'' = Some (Check ''B'' JNull)"
proof -
  have h1: "distinct (map fst [(''A'', ''__proto__''), (''B'', ''r2'')])" by simp
  have h2: "distinct (map snd [(''A'', ''__proto__''), (''B'', ''r2'')])" by simp
  have a: "(''A'', ''__proto__'') \<in> set [(''A'', ''__proto__''), (''B'', ''r2'')]" by simp
  have b: "(''B'', ''r2'') \<in> set [(''A'', ''__proto__''), (''B'', ''r2'')]" by simp
  have ta: "component (split CHR ''/''
              ''account/acc/ad-hoc-check-results/suite/__proto__/run-end'') 4 = Some ''__proto__''"
    by code_simp
  have tb: "component (split CHR ''/'' ''account/acc/ad-hoc-check-results/suite/r2/run-end'') 4
              = Some ''r2''"
    by code_simp
  from objectFlip_loses_proto [OF h1 h2 a ta, of "[Check ''A'' JNull, Check ''B'' JNull]"]
       objectFlip_loses_proto [OF h1 h2 b tb, of "[Check ''A'' JNull, Check ''B'' JNull]"]
  show ?thesis by simp
qed

section \<open>Callbacks preserve the invariants\<close>

lemma paired_append:
  "paired st xs \<Longrightarrow> paired st (xs @ ys) = paired None ys"
  by (induction st xs rule: paired.induct)
     (auto split: action.splits event.splits)

lemma finished_append [simp]: "finished P (xs @ ys) = finished P xs + finished P ys"
  by (simp add: finished_def)

lemma finished_Nil [simp]: "finished P [] = 0"
  by (simp add: finished_def)

lemma finished_Cons [simp]:
  "finished P (a # xs) = (if is_finished P a then 1 else 0) + finished P xs"
  by (simp add: finished_def)

lemma grows_refl: "grows s s"
  by (simp add: grows_def)

lemma grows_trans: "grows s t \<Longrightarrow> grows t u \<Longrightarrow> grows s u"
  by (auto simp: grows_def paired_append)

lemma pre_config: "config s' = config s \<Longrightarrow> pre3 s' = pre3 s \<and> pre5 s' = pre5 s"
  by (simp add: config_def pre3_def pre5_def)

lemma config_emit [simp]: "config (emit e s) = config s"
  by (simp add: config_def)

lemma pre_emit [simp]: "pre3 (emit e s) = pre3 s" "pre5 (emit e s) = pre5 s"
  by (simp_all add: pre3_def pre5_def)

lemma allChecksFinishedPromise_emit:
  "allChecksFinishedPromise (emit e s) =
     (case e of
        CHECK_FINISHED c \<Rightarrow>
          (case allChecksFinishedPromise s of
             None \<Rightarrow> None
           | Some p \<Rightarrow>
               if numChecks p = 0 then Some p
               else Some (Completion (numChecks p) (finishedCheckCount p + 1)
                            (resolved p \<or> finishedCheckCount p + 1 = numChecks p)))
      | _ \<Rightarrow> allChecksFinishedPromise s)"
  by (simp add: emit_def Let_def split: event.split option.split completion.split)

lemma tracked_emit: "tracked n s \<Longrightarrow> tracked n (emit e s)"
  by (cases e) (auto simp: tracked_def allChecksFinishedPromise_emit)

lemma load_emit:
  "load P (emit e s) = load P s + (if is_finished P (Emit e) then 1 else 0)"
  by (simp add: load_def)

lemma grows_emit_inprogress: "grows s (emit (CHECK_INPROGRESS c) s)"
  by (simp add: grows_def)

lemma tail_refl: "tail c s s"
  by (simp add: tail_def grows_refl)

lemma tail_failed: "tail c s (emit (CHECK_FINISHED c) (emit (CHECK_FAILED c m) s))"
  by (simp add: tail_def grows_def tracked_emit load_emit)

lemma tail_finish: "tail c s (finish c result s)"
  by (simp add: finish_def tail_def grows_def tracked_emit load_emit)

lemma reject_fields [simp]:
  "trace (reject e s) = trace s"
  "timers (reject e s) = timers s"
  "timeouts (reject e s) = timeouts s"
  "pending (reject e s) = pending s"
  "checks (reject e s) = checks s"
  "phase (reject e s) = phase s"
  "allChecksFinishedPromise (reject e s) = allChecksFinishedPromise s"
  "pre3 (reject e s) = pre3 s"
  "pre5 (reject e s) = pre5 s"
  "config (reject e s) = config s"
  by (simp_all add: reject_def pre3_def pre5_def config_def)

lemma tail_reject: "tail c s (reject e s)"
  by (simp add: tail_def grows_def tracked_def load_def)

lemma tail_suspend:
  assumes "cont_check k = c" and "a = GetLogs region p \<or> a = GetCheckRunData region p"
  shows "tail c s (s\<lparr>trace := trace s @ [a], pending := pending s @ [(n, k)],
                     next_fetch := m\<rparr>)"
  using assms
  by (auto simp: tail_def grows_def tracked_def load_def config_def)

lemma tail_after_logs: "tail c s (after_logs c result region dp s)"
  by (cases dp) (auto simp: after_logs_def tail_finish intro!: tail_suspend)

lemma tail_run_end: "tail c s (run_end c message s)"
  by (auto simp: run_end_def Let_def tail_reject tail_after_logs
           split: json.split option.split intro!: tail_suspend)

lemma filter_delete_le:
  "length (filter Q (AList.delete k xs)) \<le> length (filter Q xs)"
  by (induction xs) auto

lemma filter_delete_drop:
  "map_of xs k = Some v \<Longrightarrow>
   length (filter Q (AList.delete k xs)) + (if Q (k, v) then 1 else 0) \<le> length (filter Q xs)"
proof (induction xs)
  case Nil
  then show ?case by simp
next
  case (Cons p xs)
  show ?case
  proof (cases "fst p = k")
    case True
    with Cons.prems have "p = (k, v)" by (cases p) simp
    with filter_delete_le [of Q k xs] show ?thesis by simp
  next
    case False
    with Cons show ?thesis by (cases p) auto
  qed
qed

lemma map_of_delete_Some:
  "map_of (AList.delete k xs) h = Some a \<Longrightarrow> map_of xs h = Some a"
  by (simp add: delete_conv' split: if_splits)

lemma moves_refl: "moves s s"
  by (simp add: moves_def grows_refl)

lemma moves_tail:
  assumes "moves s s1" and "tail c s1 s2"
  shows "moves s s2"
  using assms
  by (auto simp: moves_def tail_def table_ok_def intro: grows_trans)

lemma moves_emit_inprogress: "moves s (emit (CHECK_INPROGRESS c) s)"
  by (simp add: moves_def grows_emit_inprogress tracked_emit table_ok_def)

lemma pre_disableTimeout [simp]:
  "pre3 (disableTimeout r s) = pre3 s" "pre5 (disableTimeout r s) = pre5 s"
  "config (disableTimeout r s) = config s"
  by (simp_all add: pre3_def pre5_def config_def)

lemma table_ok_remove:
  assumes ok: "table_ok s" and h: "map_of (timers s) h = Some (Armed d r c)"
      and t: "timers s' = AList.delete h (timers s)"
      and u: "timeouts s' = AList.delete r (timeouts s)"
  shows "table_ok s'"
  unfolding table_ok_def
proof (intro allI impI)
  fix r' h'
  assume e: "map_of (timeouts s') r' = Some h'"
  then have ne: "r' \<noteq> r" and e': "map_of (timeouts s) r' = Some h'"
    using u by (auto simp: delete_conv' split: if_splits)
  from ok e' obtain d' c' where a: "map_of (timers s) h' = Some (Armed d' r' c')"
    unfolding table_ok_def by blast
  with h ne have "h' \<noteq> h" by auto
  with a t show "\<exists>d c. map_of (timers s') h' = Some (Armed d r' c)" by simp
qed

lemma moves_disableTimeout:
  "moves s (disableTimeout r s)"
proof -
  have g: "grows s (disableTimeout r s)"
    by (simp add: grows_def)
  have tr: "tracked n s \<Longrightarrow> tracked n (disableTimeout r s)" for n
    by (simp add: tracked_def)
  have sh: "map_of (timers (disableTimeout r s)) h = Some a \<Longrightarrow> map_of (timers s) h = Some a"
    for h a
    by (auto split: option.splits dest: map_of_delete_Some)
  have ok: "table_ok (disableTimeout r s)" if ok: "table_ok s"
  proof (cases "map_of (timeouts s) r")
    case None
    then have "r \<notin> fst ` set (timeouts s)" by (simp add: map_of_eq_None_iff)
    with None ok show ?thesis by (simp add: table_ok_def)
  next
    case (Some h)
    with ok obtain d c where "map_of (timers s) h = Some (Armed d r c)"
      unfolding table_ok_def by blast
    from table_ok_remove [OF ok this] Some show ?thesis by simp
  qed
  from g tr sh ok show ?thesis by (simp add: moves_def dom_delete_subset)
qed

lemma load_disableTimeout:
  assumes "map_of (timeouts s) r = Some h" and "map_of (timers s) h = Some (Armed d r' c)"
  shows "load P (disableTimeout r s) + (if P (Some c) then 1 else 0) \<le> load P s"
  using assms filter_delete_drop [of "timers s" h "Armed d r' c" "\<lambda>t. P (Some (t_check (snd t)))"]
  by (simp add: load_def)

lemma handler_resume_moves: "moves s (handler_resume topic m cs ids s)"
  by (auto simp: handler_resume_def Let_def moves_refl moves_emit_inprogress
           intro: moves_tail [OF moves_disableTimeout tail_run_end]
                  moves_tail [OF moves_disableTimeout tail_failed])

lemma handler_resume_load:
  assumes ok: "table_ok s"
      and link: "\<And>h d c. map_of (timeouts s) (component (split CHR ''/'' topic) 4) = Some h \<Longrightarrow>
                   map_of (timers s) h = Some (Armed d (component (split CHR ''/'' topic) 4) c) \<Longrightarrow>
                   component (split CHR ''/'' topic) 5 = Some ''run-end''
                     \<or> component (split CHR ''/'' topic) 5 = Some ''error'' \<Longrightarrow>
                   P (resolve_check cs ids topic) \<Longrightarrow> P (Some c)"
  shows "load P (handler_resume topic m cs ids s) \<le> load P s"
proof -
  let ?r = "component (split CHR ''/'' topic) 4"
  let ?k = "component (split CHR ''/'' topic) 5"
  let ?c = "resolve_check cs ids topic"
  show ?thesis
  proof (cases "?r \<in> fst ` set (timeouts s) \<and> (?k = Some ''run-end'' \<or> ?k = Some ''error'')")
    case False
    then show ?thesis by (auto simp: handler_resume_def Let_def load_emit)
  next
    case True
    then obtain h where h: "map_of (timeouts s) ?r = Some h"
      by (cases "map_of (timeouts s) ?r") (auto simp: map_of_eq_None_iff)
    with ok obtain d c where a: "map_of (timers s) h = Some (Armed d ?r c)"
      unfolding table_ok_def by blast
    have drop: "load P (disableTimeout ?r s) + (if P (Some c) then 1 else 0) \<le> load P s"
      by (rule load_disableTimeout [OF h a])
    have imp: "(if P ?c then 1 else 0) \<le> (if P (Some c) then 1 else (0::nat))"
      using link [OF h a] True by simp
    have t: "load P s2 \<le> load P s" if "tail ?c (disableTimeout ?r s) s2" for s2
    proof -
      from that have "load P s2 \<le> load P (disableTimeout ?r s) + (if P ?c then 1 else 0)"
        by (simp add: tail_def)
      with drop imp show ?thesis by linarith
    qed
    show ?thesis
      using True t [OF tail_run_end] t [OF tail_failed]
      by (auto simp: handler_resume_def Let_def)
  qed
qed

lemma fire_moves: "moves s (fire h s)"
proof (cases "map_of (timers s) h")
  case None
  then show ?thesis by (simp add: fire_def moves_refl)
next
  case (Some a)
  obtain d r c where a: "a = Armed d r c" by (cases a)
  let ?s1 = "s\<lparr>timers := AList.delete h (timers s), timeouts := AList.delete r (timeouts s)\<rparr>"
  have f: "fire h s = emit (CHECK_FINISHED (Some c))
                        (emit (CHECK_FAILED (Some c) (JStr ''Reached timeout'')) ?s1)"
    using Some a by (simp add: fire_def timer_callback_def)
  have "moves s ?s1"
    unfolding moves_def
  proof (intro conjI impI allI)
    show "grows s ?s1" by (simp add: grows_def config_def)
    show "table_ok ?s1" if "table_ok s"
      by (rule table_ok_remove [OF that]) (use Some a in simp_all)
    show "tracked n ?s1" if "tracked n s" for n
      using that by (simp add: tracked_def)
    show "map_of (timers s) h' = Some b" if "map_of (timers ?s1) h' = Some b" for h' b
      using that by (auto dest: map_of_delete_Some)
    show "fst ` set (timeouts ?s1) \<subseteq> fst ` set (timeouts s)"
      by (simp add: dom_delete_subset)
  qed
  from moves_tail [OF this tail_failed] f show ?thesis by simp
qed

lemma fire_load: "load P (fire h s) \<le> load P s"
proof (cases "map_of (timers s) h")
  case None
  then show ?thesis by (simp add: fire_def)
next
  case (Some a)
  obtain d r c where a: "a = Armed d r c" by (cases a)
  from Some a
    filter_delete_drop [of "timers s" h "Armed d r c" "\<lambda>t. P (Some (t_check (snd t)))"]
  show ?thesis
    by (auto simp: fire_def timer_callback_def load_emit load_def split: if_splits)
qed

lemma asset_reply_moves: "moves s (asset_reply n r s)"
proof (cases "map_of (pending s) n")
  case None
  then show ?thesis by (simp add: asset_reply_def moves_refl)
next
  case (Some k)
  let ?s1 = "s\<lparr>pending := AList.delete n (pending s)\<rparr>"
  have m: "moves s ?s1"
    by (simp add: moves_def grows_def config_def tracked_def table_ok_def)
  show ?thesis
    using Some
    by (cases r; cases k)
       (auto simp: asset_reply_def Let_def
             intro: moves_tail [OF m tail_reject] moves_tail [OF m tail_after_logs]
                    moves_tail [OF m tail_finish])
qed

lemma asset_reply_load: "load P (asset_reply n r s) \<le> load P s"
proof (cases "map_of (pending s) n")
  case None
  then show ?thesis by (simp add: asset_reply_def)
next
  case (Some k)
  let ?s1 = "s\<lparr>pending := AList.delete n (pending s)\<rparr>"
  have drop: "load P ?s1 + (if P (cont_check k) then 1 else 0) \<le> load P s"
    using Some filter_delete_drop [of "pending s" n k "\<lambda>k. P (cont_check (snd k))"]
    by (simp add: load_def)
  have t: "load P s2 \<le> load P s" if "tail c ?s1 s2" and "cont_check k = c" for s2 c
  proof -
    from that have "load P s2 \<le> load P ?s1 + (if P (cont_check k) then 1 else 0)"
      by (simp add: tail_def)
    with drop show ?thesis by linarith
  qed
  show ?thesis
  proof (cases r)
    case (Inl e)
    with Some t [OF tail_reject refl] show ?thesis by (simp add: asset_reply_def Let_def)
  next
    case (Inr v)
    show ?thesis
    proof (cases k)
      case (AwaitLogs c result region dp)
      with Some Inr t [OF tail_after_logs [of c ?s1], of "AList.update ''logs'' v result" region dp]
      show ?thesis
        by (simp add: asset_reply_def Let_def)
    next
      case (AwaitCheckRunData c result)
      with Some Inr t [OF tail_finish [of c ?s1], of "AList.update ''checkRunData'' v result"]
      show ?thesis
        by (simp add: asset_reply_def Let_def)
    qed
  qed
qed

section \<open>The trace of a running session\<close>

lemma finished_pre5 [simp]: "finished P (pre5 s) = 0"
  by (simp add: pre5_def pre3_def)

lemma finished_le_load: "finished P (trace s) \<le> load P s"
  by (simp add: load_def)

lemma shape_grows:
  assumes "shape cs s" and "grows s s'"
  shows "shape cs s'"
proof -
  from assms(2) obtain ext where
    g: "phase s' = phase s" "pre5 s' = pre5 s" "trace s' = trace s @ ext" "paired None ext"
    by (auto simp: grows_def dest: pre_config)
  from assms(1) obtain rest where
    r: "trace s = pre5 s @ Emit (RUN_STARTED cs) # rest"
       "if phase s = AwaitingCompletion then paired None rest
        else (phase s = Disconnecting \<or> (\<exists>r. phase s = Done r))
           \<and> (\<exists>r1 r2. rest = r1 @ Emit RUN_FINISHED # SocketEnd # r2
                 \<and> paired None r1 \<and> paired None r2
                 \<and> finished (\<lambda>_. True) r1 = length cs)"
    unfolding shape_def by blast
  have t: "trace s' = pre5 s' @ Emit (RUN_STARTED cs) # (rest @ ext)"
    using g r(1) by simp
  show ?thesis
  proof (cases "phase s = AwaitingCompletion")
    case True
    with r(2) g(4) have "paired None (rest @ ext)" by (simp add: paired_append)
    with t True g(1) show ?thesis unfolding shape_def by auto
  next
    case False
    with r(2) obtain r1 r2 where
      d: "phase s = Disconnecting \<or> (\<exists>r. phase s = Done r)"
         "rest = r1 @ Emit RUN_FINISHED # SocketEnd # r2" "paired None r1" "paired None r2"
         "finished (\<lambda>_. True) r1 = length cs"
      by auto
    have "rest @ ext = r1 @ Emit RUN_FINISHED # SocketEnd # (r2 @ ext)"
      using d(2) by simp
    moreover have "paired None (r2 @ ext)"
      using d(4) g(4) by (simp add: paired_append)
    ultimately show ?thesis
      unfolding shape_def using t False g(1) d(1,3,5) by auto
  qed
qed

lemma mid_moves:
  assumes "mid cs s" and "moves s s'" and "load (\<lambda>_. True) s' \<le> load (\<lambda>_. True) s"
  shows "mid cs s'"
proof -
  from assms(2) have g: "grows s s'" by (simp add: moves_def)
  from assms(1) have "shape cs s" by (simp add: mid_def)
  from shape_grows [OF this g] assms show ?thesis
    by (simp add: mid_def moves_def)
qed

lemma mid_handler_resume: "mid cs s \<Longrightarrow> mid cs (handler_resume topic m cs' ids s)"
  by (rule mid_moves [OF _ handler_resume_moves handler_resume_load])
     (simp_all add: mid_def)

lemma mid_fire: "mid cs s \<Longrightarrow> mid cs (fire h s)"
  by (rule mid_moves [OF _ fire_moves fire_load])

lemma mid_asset_reply: "mid cs s \<Longrightarrow> mid cs (asset_reply n r s)"
  by (rule mid_moves [OF _ asset_reply_moves asset_reply_load])

lemma run_finally_fields [simp]:
  "trace (run_finally s) = trace s @ [SocketEnd]"
  "phase (run_finally s) = Disconnecting"
  "checks (run_finally s) = checks s"
  "timers (run_finally s) = timers s"
  "timeouts (run_finally s) = timeouts s"
  "pending (run_finally s) = pending s"
  "allChecksFinishedPromise (run_finally s) = allChecksFinishedPromise s"
  "pre3 (run_finally s) = pre3 s"
  "pre5 (run_finally s) = pre5 s"
  by (simp_all add: run_finally_def pre3_def pre5_def)

lemma live_run_continue:
  assumes "mid cs s"
  shows "live cs (run_continue s)"
proof (cases "phase s = AwaitingCompletion \<and>
              (case allChecksFinishedPromise s of Some p \<Rightarrow> resolved p | None \<Rightarrow> False)")
  case False
  then have same: "run_continue s = s" by (auto simp: run_continue_def)
  have "finished (\<lambda>_. True) (trace s) < length cs" if "phase s = AwaitingCompletion"
    using that False assms by (auto simp: mid_def tracked_def)
  with same assms show ?thesis by (simp add: live_def)
next
  case True
  let ?s' = "run_finally (emit RUN_FINISHED s)"
  have rc: "run_continue s = ?s'" using True by (simp add: run_continue_def)
  from assms True have "length cs \<le> finished (\<lambda>_. True) (trace s)"
    by (auto simp: mid_def tracked_def)
  moreover from assms have "finished (\<lambda>_. True) (trace s) \<le> length cs"
    using finished_le_load [of "\<lambda>_. True" s] by (simp add: mid_def)
  ultimately have fin: "finished (\<lambda>_. True) (trace s) = length cs" by simp
  from assms True obtain rest where
    r: "trace s = pre5 s @ Emit (RUN_STARTED cs) # rest" "paired None rest"
    by (auto simp: mid_def shape_def)
  have fr: "finished (\<lambda>_. True) rest = length cs"
    using fin r(1) by simp
  have "shape cs ?s'"
    unfolding shape_def
    by (rule exI [of _ "rest @ [Emit RUN_FINISHED, SocketEnd]"])
       (use r fr in \<open>simp, intro exI [of _ rest] exI [of _ "[]"], simp\<close>)
  moreover have "tracked (length cs) ?s'"
    using assms by (simp add: mid_def tracked_def allChecksFinishedPromise_emit)
  moreover have "table_ok ?s'"
    using assms by (simp add: mid_def table_ok_def)
  moreover have "load (\<lambda>_. True) ?s' \<le> length cs"
    using assms by (simp add: mid_def load_def)
  ultimately show ?thesis
    using rc by (simp add: live_def mid_def)
qed

lemma mid_suspended [simp]: "mid cs (s\<lparr>suspended := x\<rparr>) = mid cs s"
  by (simp add: mid_def shape_def tracked_def table_ok_def load_def pre3_def pre5_def)

lemma mid_unhandled [simp]: "mid cs (s\<lparr>unhandled := x\<rparr>) = mid cs s"
  by (simp add: mid_def shape_def tracked_def table_ok_def load_def pre3_def pre5_def)

lemma inv_suspended [simp]: "inv (s\<lparr>suspended := x\<rparr>) = inv s"
  by (simp add: inv_def idle_def live_def pre3_def pre5_def split: checks_promise.split)

lemma inv_unhandled [simp]: "inv (s\<lparr>unhandled := x\<rparr>) = inv s"
  by (simp add: inv_def idle_def live_def pre3_def pre5_def split: checks_promise.split)

lemma run_continue_idle: "allChecksFinishedPromise s = None \<Longrightarrow> run_continue s = s"
  by (simp add: run_continue_def)

lemma checks_run_continue [simp]: "checks (run_continue s) = checks s"
  by (simp add: run_continue_def)

lemma idle_fire: "idle s \<Longrightarrow> fire h s = s"
  by (simp add: idle_def fire_def)

lemma idle_asset_reply: "idle s \<Longrightarrow> asset_reply n r s = s"
  by (simp add: idle_def asset_reply_def)

lemma inv_live:
  assumes "checks s = Resolved cs ids"
  shows "inv s = live cs s"
  using assms by (simp add: inv_def)

lemma inv_not_resolved_idle:
  assumes "inv s" and "\<And>cs ids. checks s \<noteq> Resolved cs ids"
  shows "idle s"
  using assms by (cases "checks s") (auto simp: inv_def)

lemma inv_after_callback:
  assumes "checks s = Resolved cs ids" and "mid cs s'" and "checks s' = checks s"
  shows "inv (run_continue s')"
  using assms live_run_continue [of cs s'] by (simp add: inv_def)

lemma checks_moves: "moves s s' \<Longrightarrow> checks s' = checks s"
  by (simp add: moves_def grows_def)

lemma inv_timer:
  assumes "inv s"
  shows "inv (step (TimerFires h) s)"
proof (cases "\<exists>cs ids. checks s = Resolved cs ids")
  case True
  then obtain cs ids where c: "checks s = Resolved cs ids" by blast
  with assms have "mid cs s" by (simp add: inv_def live_def)
  from inv_after_callback [OF c mid_fire [OF this] checks_moves [OF fire_moves]]
  show ?thesis by simp
next
  case False
  with assms have i: "idle s" by (auto intro: inv_not_resolved_idle)
  then have "run_continue s = s" by (simp add: run_continue_idle idle_def)
  with i assms show ?thesis by (simp add: idle_fire)
qed

lemma inv_asset:
  assumes "inv s"
  shows "inv (step (AssetReply n r) s)"
proof (cases "\<exists>cs ids. checks s = Resolved cs ids")
  case True
  then obtain cs ids where c: "checks s = Resolved cs ids" by blast
  with assms have "mid cs s" by (simp add: inv_def live_def)
  from inv_after_callback [OF c mid_asset_reply [OF this] checks_moves [OF asset_reply_moves]]
  show ?thesis by simp
next
  case False
  with assms have i: "idle s" by (auto intro: inv_not_resolved_idle)
  then have "run_continue s = s" by (simp add: run_continue_idle idle_def)
  with i assms show ?thesis by (simp add: idle_asset_reply)
qed

lemma inv_message:
  assumes "inv s"
  shows "inv (step (Message topic raw) s)"
proof (cases "handler_attached s")
  case False
  with assms show ?thesis by simp
next
  case True
  show ?thesis
  proof (cases "checks s")
    case (Resolved cs ids)
    with assms have m: "mid cs s" by (simp add: inv_def live_def)
    have "mid cs (on_message topic raw s) \<and> checks (on_message topic raw s) = checks s"
    proof (cases raw)
      case NotJson
      with m show ?thesis by (simp add: on_message_def reject_def)
    next
      case (JsonText message)
      with Resolved mid_handler_resume [OF m] checks_moves [OF handler_resume_moves]
      show ?thesis by (simp add: on_message_def)
    qed
    with inv_after_callback [OF Resolved] True show ?thesis by simp
  next
    case Unset
    with assms have i: "idle s" by (auto intro: inv_not_resolved_idle)
    have "run_continue (on_message topic raw s) = on_message topic raw s"
      using i Unset by (cases raw) (simp_all add: run_continue_idle idle_def on_message_def)
    with assms True Unset show ?thesis
      by (cases raw) (simp_all add: on_message_def reject_def)
  next
    case Pending
    with assms have i: "idle s" by (auto intro: inv_not_resolved_idle)
    have "run_continue (on_message topic raw s) = on_message topic raw s"
      using i Pending by (cases raw) (simp_all add: run_continue_idle idle_def on_message_def)
    with assms True Pending show ?thesis
      by (cases raw) (simp_all add: on_message_def reject_def)
  next
    case (Rejected e)
    with assms have i: "idle s" by (auto intro: inv_not_resolved_idle)
    have "run_continue (on_message topic raw s) = on_message topic raw s"
      using i Rejected by (cases raw) (simp_all add: run_continue_idle idle_def on_message_def)
    with assms True Rejected show ?thesis
      by (cases raw) (simp_all add: on_message_def reject_def)
  qed
qed

section \<open>The steps of \<^verbatim>\<open>run()\<close> preserve the invariant\<close>

lemma live_phase:
  "live cs s \<Longrightarrow>
   phase s = AwaitingCompletion \<or> phase s = Disconnecting \<or> (\<exists>r. phase s = Done r)"
  by (auto simp: live_def mid_def shape_def split: if_splits)

lemma inv_NotStarted:
  "inv s \<Longrightarrow> phase s = NotStarted \<Longrightarrow> checks s = Unset \<and> idle s \<and> trace s = []"
  by (cases "checks s") (auto simp: inv_def dest: live_phase)

lemma inv_Connecting:
  "inv s \<Longrightarrow> phase s = Connecting \<Longrightarrow> checks s = Unset \<and> idle s \<and> trace s = [Connect]"
  by (cases "checks s") (auto simp: inv_def dest: live_phase)

lemma inv_Subscribing:
  "inv s \<Longrightarrow> phase s = Subscribing \<Longrightarrow> checks s = Unset \<and> idle s \<and> trace s = pre3 s"
  by (cases "checks s") (auto simp: inv_def dest: live_phase)

lemma inv_Triggering:
  "inv s \<Longrightarrow> phase s = Triggering \<Longrightarrow> checks s = Pending \<and> idle s \<and> trace s = pre5 s"
  by (cases "checks s") (auto simp: inv_def dest: live_phase)

lemma inv_Unset:
  "checks s = Unset \<Longrightarrow>
   inv s = (idle s \<and>
          (phase s = NotStarted \<and> trace s = []
           \<or> (phase s = Connecting \<or> (\<exists>e. phase s = Done (Some e))) \<and> trace s = [Connect]
           \<or> (phase s = Subscribing \<or> (\<exists>e. phase s = Done (Some e))) \<and> trace s = pre3 s))"
  by (simp add: inv_def)

lemma inv_Pending:
  "checks s = Pending \<Longrightarrow> inv s = (idle s \<and> phase s = Triggering \<and> trace s = pre5 s)"
  by (simp add: inv_def)

lemma inv_Rejected:
  "checks s = Rejected e \<Longrightarrow>
   inv s = (idle s \<and> (phase s = Disconnecting \<or> (\<exists>r. phase s = Done r))
          \<and> trace s = pre5 s @ [Emit (ERROR e), SocketEnd])"
  by (simp add: inv_def)

lemma inv_start:
  assumes "inv s"
  shows "inv (step Start s)"
proof (cases "phase s = NotStarted")
  case False
  with assms show ?thesis by (simp add: run_start_def)
next
  case True
  from inv_NotStarted [OF assms True] show ?thesis
    using True by (simp add: run_start_def inv_Unset idle_def)
qed

lemma inv_connected:
  assumes "inv s"
  shows "inv (step (ConnectReply r) s)"
proof (cases "phase s = Connecting")
  case False
  with assms show ?thesis by (simp add: run_connected_def)
next
  case True
  from inv_Connecting [OF assms True] show ?thesis
    using True
    by (cases r)
       (simp_all add: run_connected_def configureResultListener_def inv_Unset idle_def pre3_def)
qed

lemma inv_subscribed:
  assumes "inv s"
  shows "inv (step (SubscribeReply r) s)"
proof (cases "phase s = Subscribing")
  case False
  with assms show ?thesis by (simp add: run_subscribed_def)
next
  case True
  from inv_Subscribing [OF assms True] show ?thesis
    using True
    by (cases r)
       (simp_all add: run_subscribed_def scheduleAllChecks_def inv_Unset inv_Pending idle_def
          pre3_def pre5_def)
qed

lemma inv_ended:
  assumes "inv s"
  shows "inv (step (EndReply r) s)"
proof (cases "phase s = Disconnecting")
  case False
  with assms show ?thesis by (simp add: run_ended_def)
next
  case True
  let ?s' = "s\<lparr>phase := Done (case r of Inl e \<Rightarrow> Some e | Inr _ \<Rightarrow> None)\<rparr>"
  have st: "step (EndReply r) s = ?s'" using True by (simp add: run_ended_def)
  show ?thesis
  proof (cases "checks s")
    case Unset
    with assms True show ?thesis by (simp add: inv_Unset)
  next
    case Pending
    with assms True show ?thesis by (simp add: inv_Pending)
  next
    case (Rejected e)
    with assms True st show ?thesis by (simp add: inv_Rejected idle_def pre3_def pre5_def)
  next
    case (Resolved cs ids)
    with assms have l: "live cs s" by (simp add: inv_def)
    then have "shape cs s" by (simp add: live_def mid_def)
    with True have "shape cs ?s'"
      by (simp add: shape_def pre3_def pre5_def)
    with l have "live cs ?s'"
      by (simp add: live_def mid_def tracked_def table_ok_def load_def)
    with Resolved st show ?thesis by (simp add: inv_def)
  qed
qed

lemma pre_arm [simp]: "pre3 (arm ids c s) = pre3 s" "pre5 (arm ids c s) = pre5 s"
  by (simp_all add: arm_def Let_def pre3_def pre5_def)

lemma pre_fold_arm [simp]:
  "pre3 (fold (arm ids) cs s) = pre3 s" "pre5 (fold (arm ids) cs s) = pre5 s"
  by (induction cs arbitrary: s) simp_all

lemma arm_table_ok:
  assumes ok: "table_ok s" and fresh: "\<forall>h\<in>fst ` set (timers s). h < next_timer s"
  shows "table_ok (arm ids c s) \<and> (\<forall>h\<in>fst ` set (timers (arm ids c s)). h < next_timer (arm ids c s))"
proof
  let ?r0 = "map_of ids (check_id c)"
  let ?h0 = "next_timer s"
  let ?a = "Armed (timeout s * 1000) ?r0 c"
  have nf: "?h0 \<notin> fst ` set (timers s)" using fresh by auto
  show "table_ok (arm ids c s)"
    unfolding table_ok_def
  proof (intro allI impI)
    fix r h
    assume e: "map_of (timeouts (arm ids c s)) r = Some h"
    show "\<exists>d c'. map_of (timers (arm ids c s)) h = Some (Armed d r c')"
    proof (cases "r = ?r0")
      case True
      with e have "h = ?h0" by (simp add: update_conv')
      with True map_of_snoc_fresh [OF nf, of ?a] show ?thesis by (simp del: map_of_append)
    next
      case False
      with e have "map_of (timeouts s) r = Some h" by (simp add: update_conv')
      with ok obtain d c' where "map_of (timers s) h = Some (Armed d r c')"
        unfolding table_ok_def by blast
      then show ?thesis by (simp add: map_add_Some_iff)
    qed
  qed
  show "\<forall>h\<in>fst ` set (timers (arm ids c s)). h < next_timer (arm ids c s)"
    using fresh by (auto simp: less_Suc_eq)
qed

lemma fold_arm_table_ok:
  "table_ok s \<Longrightarrow> \<forall>h\<in>fst ` set (timers s). h < next_timer s \<Longrightarrow>
   table_ok (fold (arm ids) cs s)"
proof (induction cs arbitrary: s)
  case Nil
  then show ?case by simp
next
  case (Cons c cs)
  from arm_table_ok [OF Cons.prems, of ids c] Cons.IH [of "arm ids c s"]
  show ?case by simp
qed

lemma pre_allChecksFinished [simp]:
  "pre3 (allChecksFinished n s) = pre3 s" "pre5 (allChecksFinished n s) = pre5 s"
  by (simp_all add: allChecksFinished_def pre3_def pre5_def)

lemma response_fields [simp]:
  "trace (scheduleAllChecks_response (cs, ids) s) = trace s @ [Emit (RUN_STARTED cs)]"
  "timeouts (scheduleAllChecks_response (cs, ids) s) =
     timeouts (fold (arm ids) cs (allChecksFinished (length cs) s))"
  "pending (scheduleAllChecks_response (cs, ids) s) = pending s"
  "phase (scheduleAllChecks_response (cs, ids) s) = phase s"
  "checks (scheduleAllChecks_response (cs, ids) s) = Resolved cs (objectFlip ids)"
  "allChecksFinishedPromise (scheduleAllChecks_response (cs, ids) s) =
     Some (Completion (length cs) 0 (length cs = 0))"
  by (simp_all add: scheduleAllChecks_response_def allChecksFinished_def Let_def
        allChecksFinishedPromise_emit)

lemma pre_updates [simp]:
  "pre5 (s\<lparr>phase := p\<rparr>) = pre5 s"
  "pre5 (s\<lparr>trace := tr\<rparr>) = pre5 s"
  "pre5 (s\<lparr>checks := c\<rparr>) = pre5 s"
  "pre5 (s\<lparr>suspended := x\<rparr>) = pre5 s"
  "pre3 (s\<lparr>phase := p\<rparr>) = pre3 s"
  "pre3 (s\<lparr>trace := tr\<rparr>) = pre3 s"
  "pre3 (s\<lparr>checks := c\<rparr>) = pre3 s"
  "pre3 (s\<lparr>suspended := x\<rparr>) = pre3 s"
  by (simp_all add: pre3_def pre5_def)

lemma pre_response [simp]:
  "pre3 (scheduleAllChecks_response (cs, ids) s) = pre3 s"
  "pre5 (scheduleAllChecks_response (cs, ids) s) = pre5 s"
  by (simp_all add: scheduleAllChecks_response_def Let_def)

lemma mid_response:
  assumes "idle s" and "trace s = pre5 s"
  shows "mid cs ((scheduleAllChecks_response (cs, ids) s)\<lparr>phase := AwaitingCompletion\<rparr>)"
proof -
  let ?s0 = "allChecksFinished (length cs) s"
  let ?s1 = "(scheduleAllChecks_response (cs, ids) s)\<lparr>phase := AwaitingCompletion\<rparr>"
  have t0: "timers ?s0 = []" "timeouts ?s0 = []"
    using assms(1) by (simp_all add: idle_def allChecksFinished_def)
  then have "table_ok ?s0" by (simp add: table_ok_def)
  from fold_arm_table_ok [OF this, of ids cs] t0
  have "table_ok (fold (arm ids) cs ?s0)" by simp
  then have ok: "table_ok ?s1"
    by (simp add: table_ok_def scheduleAllChecks_response_def Let_def)
  have len: "length (timers ?s1) = length cs"
    using t0 by (simp add: scheduleAllChecks_response_def Let_def fold_arm_timers)
  have tr: "trace ?s1 = pre5 ?s1 @ Emit (RUN_STARTED cs) # []"
    using assms(2) by simp
  have "tracked (length cs) ?s1"
    using assms(2) by (simp add: tracked_def)
  moreover have "load (\<lambda>_. True) ?s1 \<le> length cs"
    using len assms by (simp add: load_def idle_def)
  moreover have "shape cs ?s1"
    unfolding shape_def using tr by (intro exI [of _ "[]"]) simp
  ultimately show ?thesis using ok by (simp add: mid_def)
qed

lemma mid_fold_resume:
  "mid cs s \<Longrightarrow>
   mid cs (fold (\<lambda>(topic, message). handler_resume topic message cs' ids) xs s)
   \<and> checks (fold (\<lambda>(topic, message). handler_resume topic message cs' ids) xs s) = checks s"
proof (induction xs arbitrary: s)
  case Nil
  then show ?case by simp
next
  case (Cons x xs)
  obtain topic message where x: "x = (topic, message)" by (cases x)
  from Cons.IH [OF mid_handler_resume [OF Cons.prems, of topic message cs' ids]]
    checks_moves [OF handler_resume_moves, of topic message cs' ids s] x
  show ?case by simp
qed

lemma fold_reject:
  "fold (\<lambda>_. reject e) xs s = s\<lparr>unhandled := unhandled s @ replicate (length xs) e\<rparr>"
  by (induction xs arbitrary: s) (simp_all add: reject_def replicate_append_same)

lemma inv_triggered:
  assumes "inv s"
  shows "inv (step (TriggerReply r) s)"
proof (cases "phase s = Triggering")
  case False
  with assms show ?thesis by (simp add: run_triggered_def)
next
  case True
  from inv_Triggering [OF assms True]
  have p: "checks s = Pending" and i: "idle s" and t: "trace s = pre5 s" by simp_all
  show ?thesis
  proof (cases r)
    case (Inl e)
    let ?s1 = "run_finally (emit (ERROR e) (s\<lparr>checks := Rejected e\<rparr>))"
    have "inv ?s1"
      using i t by (simp add: inv_Rejected idle_def emit_def run_finally_def)
    moreover have "checks ?s1 = Rejected e" by simp
    ultimately have "inv (resume_suspended ?s1)"
      by (simp add: resume_suspended_def fold_reject)
    with True Inl show ?thesis by (simp add: run_triggered_def)
  next
    case (Inr resp)
    obtain cs ids where resp: "resp = (cs, ids)" by (cases resp)
    let ?s1 = "(scheduleAllChecks_response (cs, ids) s)\<lparr>phase := AwaitingCompletion\<rparr>"
    have c1: "checks ?s1 = Resolved cs (objectFlip ids)" by simp
    have m1: "mid cs (?s1\<lparr>suspended := []\<rparr>)"
      using mid_response [OF i t, of cs ids] by simp
    from mid_fold_resume [OF m1, of cs "objectFlip ids" "suspended ?s1"] c1
    have "mid cs (resume_suspended ?s1)"
      and c2: "checks (resume_suspended ?s1) = Resolved cs (objectFlip ids)"
      by (simp_all add: resume_suspended_def)
    from live_run_continue [OF this(1)] c2
    have "inv (run_continue (resume_suspended ?s1))" by (simp add: inv_def)
    with True Inr resp show ?thesis by (simp add: run_triggered_def)
  qed
qed

lemma inv_step: "inv s \<Longrightarrow> inv (step i s)"
  by (cases i)
     (simp_all only: inv_start inv_connected inv_subscribed inv_triggered inv_message
        inv_timer inv_asset inv_ended)

lemma inv_exec: "inv s \<Longrightarrow> inv (exec ins s)"
  unfolding exec_def by (induction ins arbitrary: s) (simp_all add: inv_step)

lemma inv_init: "inv (CheckRunner acc key tags loc t v u)"
  by (simp add: CheckRunner_def inv_def idle_def)

section \<open>Executions\<close>

lemma exec_append: "exec (xs @ ys) s = exec ys (exec xs s)"
  by (simp add: exec_def)

lemma exec_Cons: "exec (x # xs) s = exec xs (step x s)"
  by (simp add: exec_def)

lemma paired_check_level: "paired st xs \<Longrightarrow> list_all check_level xs"
  by (induction st xs rule: paired.induct) (auto split: action.splits event.splits)

lemma unique_split:
  assumes "P x" and "P y" and "\<forall>a\<in>set xs. \<not> P a" and "\<forall>a\<in>set ys. \<not> P a"
      and "xs @ x # ys = xs' @ y # ys'"
  shows "xs' = xs \<and> y = x \<and> ys' = ys"
  using assms
proof (induction xs arbitrary: xs')
  case Nil
  then show ?case by (cases xs') auto
next
  case (Cons b xs)
  then show ?case by (cases xs') auto
qed

lemma live_run_continue_id:
  assumes "live cs s"
  shows "run_continue s = s"
  using assms by (auto simp: run_continue_def live_def mid_def tracked_def)

lemma inv_run_continue_id:
  assumes "inv s"
  shows "run_continue s = s"
proof (cases "checks s")
  case (Resolved cs ids)
  with assms show ?thesis by (simp add: inv_def live_run_continue_id)
next
  case Unset
  with assms show ?thesis by (simp add: inv_def idle_def run_continue_idle)
next
  case Pending
  with assms show ?thesis by (simp add: inv_def idle_def run_continue_idle)
next
  case (Rejected e)
  with assms show ?thesis by (simp add: inv_def idle_def run_continue_idle)
qed

lemma checks_step_Resolved:
  assumes "inv s" and "checks s = Resolved cs ids"
  shows "checks (step i s) = Resolved cs ids"
proof -
  from assms have "live cs s" by (simp add: inv_def)
  from live_phase [OF this] have
    p: "phase s \<noteq> NotStarted" "phase s \<noteq> Connecting" "phase s \<noteq> Subscribing"
       "phase s \<noteq> Triggering"
    by auto
  show ?thesis
  proof (cases i)
    case (Message topic raw)
    have "checks (on_message topic raw s) = checks s"
      using assms(2) checks_moves [OF handler_resume_moves]
      by (cases raw) (simp_all add: on_message_def)
    with Message assms(2) show ?thesis by simp
  next
    case (TimerFires h)
    with assms(2) checks_moves [OF fire_moves, of h s] show ?thesis by simp
  next
    case (AssetReply n r)
    with assms(2) checks_moves [OF asset_reply_moves, of n r s] show ?thesis by simp
  qed (use p assms(2) in \<open>simp_all add: run_start_def run_connected_def run_subscribed_def
        run_triggered_def run_ended_def\<close>)
qed

lemma checks_step_Rejected:
  assumes "inv s" and "checks s = Rejected e"
  shows "checks (step i s) = Rejected e"
proof -
  from assms have i: "idle s" and "phase s = Disconnecting \<or> (\<exists>r. phase s = Done r)"
    by (simp_all add: inv_def)
  then have
    p: "phase s \<noteq> NotStarted" "phase s \<noteq> Connecting" "phase s \<noteq> Subscribing"
       "phase s \<noteq> Triggering"
    by auto
  show ?thesis
  proof (cases i)
    case (Message topic raw)
    with assms(2) show ?thesis by (cases raw) (simp_all add: on_message_def)
  next
    case (TimerFires h)
    with assms(2) i show ?thesis by (simp add: idle_fire)
  next
    case (AssetReply n r)
    with assms(2) i show ?thesis by (simp add: idle_asset_reply)
  qed (use p assms(2) in \<open>simp_all add: run_start_def run_connected_def run_subscribed_def
        run_triggered_def run_ended_def\<close>)
qed

lemma exec_Resolved:
  "inv s \<Longrightarrow> checks s = Resolved cs ids \<Longrightarrow> checks (exec ins s) = Resolved cs ids"
proof (induction ins arbitrary: s)
  case Nil
  then show ?case by (simp add: exec_def)
next
  case (Cons i ins)
  from Cons.IH [OF inv_step [OF Cons.prems(1)] checks_step_Resolved [OF Cons.prems]]
  show ?case by (simp add: exec_Cons)
qed

lemma exec_Rejected:
  "inv s \<Longrightarrow> checks s = Rejected e \<Longrightarrow> checks (exec ins s) = Rejected e"
proof (induction ins arbitrary: s)
  case Nil
  then show ?case by (simp add: exec_def)
next
  case (Cons i ins)
  from Cons.IH [OF inv_step [OF Cons.prems(1)] checks_step_Rejected [OF Cons.prems]]
  show ?case by (simp add: exec_Cons)
qed

lemma trigger_succeeds:
  assumes "inv s" and "phase s = Triggering"
  shows "checks (step (TriggerReply (Inr (cs, ids))) s) = Resolved cs (objectFlip ids)"
proof -
  let ?s1 = "(scheduleAllChecks_response (cs, ids) s)\<lparr>phase := AwaitingCompletion\<rparr>"
  from inv_Triggering [OF assms] have i: "idle s" and t: "trace s = pre5 s" by simp_all
  have m1: "mid cs (?s1\<lparr>suspended := []\<rparr>)"
    using mid_response [OF i t, of cs ids] by simp
  from mid_fold_resume [OF m1, of cs "objectFlip ids" "suspended ?s1"]
  have "checks (resume_suspended ?s1) = Resolved cs (objectFlip ids)"
    by (simp add: resume_suspended_def)
  with assms(2) show ?thesis by (simp add: run_triggered_def)
qed

lemma trigger_fails:
  assumes "phase s = Triggering"
  shows "checks (step (TriggerReply (Inl e)) s) = Rejected e"
  using assms by (simp add: run_triggered_def resume_suspended_def fold_reject)

lemma after_success:
  assumes "phase (exec ins (CheckRunner acc key tags loc t v u)) = Triggering"
      and "s = exec (ins @ TriggerReply (Inr (cs, ids)) # ins') (CheckRunner acc key tags loc t v u)"
  shows "inv s \<and> checks s = Resolved cs (objectFlip ids)"
proof -
  let ?s0 = "exec ins (CheckRunner acc key tags loc t v u)"
  have i0: "inv ?s0" by (rule inv_exec [OF inv_init])
  have s: "s = exec ins' (step (TriggerReply (Inr (cs, ids))) ?s0)"
    using assms(2) by (simp add: exec_append exec_Cons)
  have i1: "inv (step (TriggerReply (Inr (cs, ids))) ?s0)" by (rule inv_step [OF i0])
  from exec_Resolved [OF i1 trigger_succeeds [OF i0 assms(1)]] inv_exec [OF i1] s
  show ?thesis by simp
qed

lemma after_failure:
  assumes "phase (exec ins (CheckRunner acc key tags loc t v u)) = Triggering"
      and "s = exec (ins @ TriggerReply (Inl e) # ins') (CheckRunner acc key tags loc t v u)"
  shows "inv s \<and> checks s = Rejected e"
proof -
  let ?s0 = "exec ins (CheckRunner acc key tags loc t v u)"
  have i0: "inv ?s0" by (rule inv_exec [OF inv_init])
  have s: "s = exec ins' (step (TriggerReply (Inl e)) ?s0)"
    using assms(2) by (simp add: exec_append exec_Cons)
  have i1: "inv (step (TriggerReply (Inl e)) ?s0)" by (rule inv_step [OF i0])
  from exec_Rejected [OF i1 trigger_fails [OF assms(1)]] inv_exec [OF i1] s
  show ?thesis by simp
qed

section \<open>Subscription before trigger, completion, failure and cleanup\<close>

lemma emitted_append [simp]: "emitted (xs @ ys) = emitted xs @ emitted ys"
  by (induction xs rule: emitted.induct) simp_all

lemma emitted_pre5 [simp]: "emitted (pre5 s) = []"
  by (simp add: pre5_def pre3_def)

lemma paired_no_run_finished: "paired st xs \<Longrightarrow> Emit RUN_FINISHED \<notin> set xs"
  using paired_check_level [of st xs] by (auto simp: list_all_iff)

lemma paired_no_socket_end: "paired st xs \<Longrightarrow> SocketEnd \<notin> set xs"
  using paired_check_level [of st xs] by (auto simp: list_all_iff)

lemma paired_no_trigger: "paired st xs \<Longrightarrow> Trigger req \<notin> set xs"
  using paired_check_level [of st xs] by (auto simp: list_all_iff)

lemma pre5_split: "pre5 s = (pre3 s @ [SubscribeAcked]) @ [Trigger \<lparr>shouldRecord = True,
    runLocation = location s, checkRunSuiteId = uuid s, req_targetTags = targetTags s\<rparr>]"
  by (simp add: pre5_def)

text \<open>The constructor's parameters are never written again.\<close>

lemma config_moves: "moves s s' \<Longrightarrow> config s' = config s"
  by (simp add: moves_def grows_def)

lemma config_updates [simp]:
  "config (s\<lparr>phase := p\<rparr>) = config s"
  "config (s\<lparr>trace := tr\<rparr>) = config s"
  "config (s\<lparr>checks := c\<rparr>) = config s"
  "config (s\<lparr>suspended := x\<rparr>) = config s"
  "config (s\<lparr>unhandled := y\<rparr>) = config s"
  "config (s\<lparr>handler_attached := b\<rparr>) = config s"
  "config (s\<lparr>allChecksFinishedPromise := q\<rparr>) = config s"
  by (simp_all add: config_def)

lemma config_run_finally [simp]: "config (run_finally s) = config s"
  by (simp add: run_finally_def)

lemma config_run_continue [simp]: "config (run_continue s) = config s"
  by (simp add: run_continue_def)

lemma config_arm [simp]: "config (arm ids c s) = config s"
  by (simp add: arm_def Let_def config_def)

lemma config_fold_arm [simp]: "config (fold (arm ids) cs s) = config s"
  by (induction cs arbitrary: s) simp_all

lemma config_response [simp]: "config (scheduleAllChecks_response resp s) = config s"
  by (cases resp) (simp add: scheduleAllChecks_response_def allChecksFinished_def Let_def)

lemma config_on_message [simp]: "config (on_message topic raw s) = config s"
  by (cases raw; cases "checks s")
     (simp_all add: on_message_def config_moves [OF handler_resume_moves])

lemma config_fold_resume [simp]:
  "config (fold (\<lambda>(topic, message). handler_resume topic message cs ids) xs s) = config s"
  by (induction xs arbitrary: s) (auto simp: config_moves [OF handler_resume_moves])

lemma config_resume_suspended [simp]: "config (resume_suspended s) = config s"
  by (cases "checks s") (simp_all add: resume_suspended_def fold_reject)

lemma config_step: "config (step i s) = config s"
proof (cases i)
  case (TriggerReply r)
  then show ?thesis by (cases r) (simp_all add: run_triggered_def)
next
  case (ConnectReply r)
  then show ?thesis by (cases r) (simp_all add: run_connected_def configureResultListener_def)
next
  case (SubscribeReply r)
  then show ?thesis by (cases r) (simp_all add: run_subscribed_def scheduleAllChecks_def)
qed (simp_all add: run_start_def run_ended_def config_moves [OF fire_moves]
       config_moves [OF asset_reply_moves])

lemma config_exec: "config (exec ins s) = config s"
  unfolding exec_def by (induction ins arbitrary: s) (simp_all add: config_step)

lemma config_init: "config (CheckRunner acc key tags loc t v u) = (acc, u, loc, tags)"
  by (simp add: config_def CheckRunner_def)

text \<open>The shape of every reachable trace, as far as the run-level actions go.\<close>

lemma live_trace:
  assumes "live cs s"
  shows "\<exists>tl. trace s = pre5 s @ Emit (RUN_STARTED cs) # tl \<and> (\<forall>req. Trigger req \<notin> set tl)"
proof -
  from assms obtain rest where
    r: "trace s = pre5 s @ Emit (RUN_STARTED cs) # rest"
       "if phase s = AwaitingCompletion then paired None rest
        else (phase s = Disconnecting \<or> (\<exists>r. phase s = Done r))
           \<and> (\<exists>r1 r2. rest = r1 @ Emit RUN_FINISHED # SocketEnd # r2
                 \<and> paired None r1 \<and> paired None r2
                 \<and> finished (\<lambda>_. True) r1 = length cs)"
    unfolding live_def mid_def shape_def by blast
  have "\<forall>req. Trigger req \<notin> set rest"
    using r(2) by (auto simp: paired_no_trigger split: if_splits)
  with r(1) show ?thesis by blast
qed

lemma inv_trace:
  assumes "inv s"
  shows "trace s = [] \<or> trace s = [Connect] \<or> trace s = pre3 s
       \<or> (\<exists>tl. trace s = pre5 s @ tl \<and> (\<forall>req. Trigger req \<notin> set tl))"
proof (cases "checks s")
  case Unset
  with assms show ?thesis by (auto simp: inv_def)
next
  case Pending
  with assms show ?thesis by (simp add: inv_def)
next
  case (Rejected e)
  with assms show ?thesis by (simp add: inv_def)
next
  case (Resolved cs ids)
  with assms have "live cs s" by (simp add: inv_def)
  from live_trace [OF this] show ?thesis by auto
qed

text \<open>
  Claim C1. In every execution of \<^verbatim>\<open>run()\<close>, whatever the environment sends and in
  whatever order: if a trigger request appears in the trace, then what precedes it is exactly
  the connect, the attachment of the message handler, the subscribe call and the
  acknowledgement of the subscription, in this order; and it is the only trigger request.
\<close>

theorem subscribed_before_trigger:
  assumes "trace (exec ins (CheckRunner acc key tags loc t v u)) = pre @ Trigger req # post"
  shows "pre = [Connect, OnMessage,
                Subscribe (''account/'' @ acc @ ''/ad-hoc-check-results/'' @ u @ ''/+/+''),
                SubscribeAcked]
       \<and> (\<forall>req'. Trigger req' \<notin> set pre \<and> Trigger req' \<notin> set post)"
proof -
  let ?s = "exec ins (CheckRunner acc key tags loc t v u)"
  let ?P = "\<lambda>a. \<exists>r. a = Trigger r"
  let ?req = "\<lparr>shouldRecord = True, runLocation = location ?s, checkRunSuiteId = uuid ?s,
               req_targetTags = targetTags ?s\<rparr>"
  have i: "inv ?s" by (rule inv_exec [OF inv_init])
  have in_trace: "Trigger req \<in> set (trace ?s)" using assms by simp
  from inv_trace [OF i] in_trace obtain tl where
    tl: "trace ?s = pre5 ?s @ tl" "\<forall>r. Trigger r \<notin> set tl"
    by (auto simp: pre3_def)
  have eq: "(pre3 ?s @ [SubscribeAcked]) @ Trigger ?req # tl = pre @ Trigger req # post"
    using tl(1) assms by (simp add: pre5_def)
  have "pre = pre3 ?s @ [SubscribeAcked] \<and> Trigger req = Trigger ?req \<and> post = tl"
    by (rule unique_split [where P = ?P, OF _ _ _ _ eq]) (use tl(2) in \<open>auto simp: pre3_def\<close>)
  moreover have "accountId ?s = acc \<and> uuid ?s = u"
    using config_exec [of ins "CheckRunner acc key tags loc t v u"]
    by (simp add: config_init) (simp add: config_def)
  ultimately show ?thesis
    using tl(2) by (auto simp: pre3_def)
qed

lemma filter_eq_none: "x \<notin> set xs \<Longrightarrow> filter (\<lambda>a. a = x) xs = []"
  by (induction xs) auto

lemma run_finished_pre5: "Emit RUN_FINISHED \<notin> set (pre5 s)" "SocketEnd \<notin> set (pre5 s)"
  by (simp_all add: pre5_def pre3_def)

text \<open>
  Completion is counted as intended. When the trigger response selects the checks \<open>cs\<close>,
  then in every state reached afterwards \<open>RUN_FINISHED\<close> has been emitted once if at least \<open>length cs\<close>
  \<open>CHECK_FINISHED\<close> events have been emitted and not at all otherwise; exactly \<open>length cs\<close>
  \<open>CHECK_FINISHED\<close> events precede it; and for an empty \<open>cs\<close> it is there at once, in
  the state right after the response (\<open>ins' = []\<close>) as in every later one.
\<close>

lemma run_finished_counted:
  assumes "phase (exec ins (CheckRunner acc key tags loc t v u)) = Triggering"
      and "s = exec (ins @ TriggerReply (Inr (cs, ids)) # ins') (CheckRunner acc key tags loc t v u)"
  shows "length (filter (\<lambda>a. a = Emit RUN_FINISHED) (trace s))
           = (if length cs \<le> finished (\<lambda>_. True) (trace s) then 1 else 0)
       \<and> (\<forall>pre post. trace s = pre @ Emit RUN_FINISHED # post \<longrightarrow>
             finished (\<lambda>_. True) pre = length cs)
       \<and> (cs = [] \<longrightarrow> Emit RUN_FINISHED \<in> set (trace s))"
proof -
  from after_success [OF assms] have "inv s" and "checks s = Resolved cs (objectFlip ids)"
    by simp_all
  then have "live cs s" by (simp add: inv_def)
  then have fin: "phase s = AwaitingCompletion \<longrightarrow> finished (\<lambda>_. True) (trace s) < length cs"
    and "shape cs s"
    by (simp_all add: live_def mid_def)
  then obtain rest where
    r: "trace s = pre5 s @ Emit (RUN_STARTED cs) # rest"
       "if phase s = AwaitingCompletion then paired None rest
        else (phase s = Disconnecting \<or> (\<exists>r. phase s = Done r))
           \<and> (\<exists>r1 r2. rest = r1 @ Emit RUN_FINISHED # SocketEnd # r2
                 \<and> paired None r1 \<and> paired None r2
                 \<and> finished (\<lambda>_. True) r1 = length cs)"
    unfolding shape_def by blast
  show ?thesis
  proof (cases "phase s = AwaitingCompletion")
    case True
    with r(2) have "Emit RUN_FINISHED \<notin> set rest" by (simp add: paired_no_run_finished)
    with r(1) have no: "Emit RUN_FINISHED \<notin> set (trace s)"
      by (simp add: run_finished_pre5)
    moreover from True fin have "\<not> length cs \<le> finished (\<lambda>_. True) (trace s)" by simp
    ultimately show ?thesis by (auto simp: filter_eq_none)
  next
    case False
    with r(2) obtain r1 r2 where
      d: "rest = r1 @ Emit RUN_FINISHED # SocketEnd # r2" "paired None r1" "paired None r2"
         "finished (\<lambda>_. True) r1 = length cs"
      by auto
    let ?pre = "pre5 s @ Emit (RUN_STARTED cs) # r1"
    have tr: "trace s = ?pre @ Emit RUN_FINISHED # (SocketEnd # r2)"
      using r(1) d(1) by simp
    have n1: "\<forall>a\<in>set ?pre. \<not> a = Emit RUN_FINISHED"
      using paired_no_run_finished [OF d(2)] by (auto simp: run_finished_pre5)
    have n2: "\<forall>a\<in>set (SocketEnd # r2). \<not> a = Emit RUN_FINISHED"
      using paired_no_run_finished [OF d(3)] by auto
    have count: "length (filter (\<lambda>a. a = Emit RUN_FINISHED) (trace s)) = 1"
      using n1 n2 by (simp add: tr filter_eq_none del: append_assoc)
    have enough: "length cs \<le> finished (\<lambda>_. True) (trace s)"
      using d(4) by (simp add: tr)
    have "finished (\<lambda>_. True) pre = length cs"
      if "trace s = pre @ Emit RUN_FINISHED # post" for pre post
    proof -
      from that tr have "?pre @ Emit RUN_FINISHED # (SocketEnd # r2) = pre @ Emit RUN_FINISHED # post"
        by simp
      from unique_split [where P = "\<lambda>a. a = Emit RUN_FINISHED", OF _ _ n1 n2 this]
      have "pre = ?pre" by simp
      with d(4) show ?thesis by simp
    qed
    with count enough tr show ?thesis by auto
  qed
qed

text \<open>
  Claim C5. When the trigger call fails with \<open>e\<close>, then in every state reached afterwards
  the only event ever emitted is \<open>ERROR e\<close>, the disconnect follows it directly and is the
  only one, \<^verbatim>\<open>run()\<close> is waiting for the disconnect or has settled, and the completion promise
  was never created, nor any timer.
\<close>

theorem trigger_failure_only_error:
  assumes "phase (exec ins (CheckRunner acc key tags loc t v u)) = Triggering"
      and "s = exec (ins @ TriggerReply (Inl e) # ins') (CheckRunner acc key tags loc t v u)"
  shows "emitted (trace s) = [ERROR e]
       \<and> (\<exists>pre. trace s = pre @ [Emit (ERROR e), SocketEnd] \<and> SocketEnd \<notin> set pre)
       \<and> (phase s = Disconnecting \<or> (\<exists>r. phase s = Done r))
       \<and> allChecksFinishedPromise s = None
       \<and> timers s = []"
proof -
  from after_failure [OF assms] have "inv s" and "checks s = Rejected e"
    by simp_all
  then have
    i: "idle s" and p: "phase s = Disconnecting \<or> (\<exists>r. phase s = Done r)"
    and tr: "trace s = pre5 s @ [Emit (ERROR e), SocketEnd]"
    by (simp_all add: inv_def)
  have "\<exists>pre. trace s = pre @ [Emit (ERROR e), SocketEnd] \<and> SocketEnd \<notin> set pre"
    using tr run_finished_pre5(2) by blast
  with i p tr show ?thesis by (simp add: idle_def)
qed

text \<open>
  Claim C8, as the code has it. Whenever \<^verbatim>\<open>run()\<close> awaits the disconnect, it has issued it
  exactly once, directly after \<open>RUN_FINISHED\<close> or \<open>ERROR\<close>; the outcome of the disconnect
  changes no event, and it is the outcome of \<^verbatim>\<open>run()\<close>: a failed disconnect makes
  \<^verbatim>\<open>run()\<close> reject with the disconnect's error.
\<close>

theorem disconnect_failure_propagates:
  assumes "s = exec ins (CheckRunner acc key tags loc t v u)"
      and "phase s = Disconnecting"
  shows "step (EndReply (Inl e)) s = s\<lparr>phase := Done (Some e)\<rparr>
       \<and> step (EndReply (Inr ())) s = s\<lparr>phase := Done None\<rparr>
       \<and> length (filter (\<lambda>a. a = SocketEnd) (trace s)) = 1
       \<and> (\<exists>pre post x. trace s = pre @ [Emit x, SocketEnd] @ post
             \<and> (x = RUN_FINISHED \<or> (\<exists>err. x = ERROR err)))"
proof -
  have i: "inv s" unfolding assms(1) by (rule inv_exec [OF inv_init])
  have st: "step (EndReply (Inl e)) s = s\<lparr>phase := Done (Some e)\<rparr>
       \<and> step (EndReply (Inr ())) s = s\<lparr>phase := Done None\<rparr>"
    using assms(2) by (simp add: run_ended_def)
  have "length (filter (\<lambda>a. a = SocketEnd) (trace s)) = 1
       \<and> (\<exists>pre post x. trace s = pre @ [Emit x, SocketEnd] @ post
             \<and> (x = RUN_FINISHED \<or> (\<exists>err. x = ERROR err)))"
  proof (cases "checks s")
    case Unset
    with i assms(2) show ?thesis by (auto simp: inv_def)
  next
    case Pending
    with i assms(2) show ?thesis by (simp add: inv_def)
  next
    case (Rejected err)
    with i have tr: "trace s = pre5 s @ [Emit (ERROR err), SocketEnd] @ []"
      by (simp add: inv_def)
    have "length (filter (\<lambda>a. a = SocketEnd) (trace s)) = 1"
      by (simp add: tr filter_eq_none run_finished_pre5)
    with tr show ?thesis by blast
  next
    case (Resolved cs ids)
    with i have "shape cs s" by (simp add: inv_def live_def mid_def)
    with assms(2) obtain r1 r2 where
      tr: "trace s = pre5 s @ Emit (RUN_STARTED cs) # r1 @ Emit RUN_FINISHED # SocketEnd # r2"
      and p: "paired None r1" "paired None r2"
      by (auto simp: shape_def)
    have "length (filter (\<lambda>a. a = SocketEnd) (trace s)) = 1"
      using paired_no_socket_end [OF p(1)] paired_no_socket_end [OF p(2)]
      by (simp add: tr filter_eq_none run_finished_pre5)
    moreover have "trace s = (pre5 s @ Emit (RUN_STARTED cs) # r1) @ [Emit RUN_FINISHED, SocketEnd] @ r2"
      using tr by simp
    ultimately show ?thesis by blast
  qed
  with st show ?thesis by simp
qed

section \<open>One terminal pair per check\<close>

lemma find_distinct:
  "distinct (map f xs) \<Longrightarrow> c \<in> set xs \<Longrightarrow> find (\<lambda>x. f x = f c) xs = Some c"
proof (induction xs)
  case Nil
  then show ?case by simp
next
  case (Cons a xs)
  show ?case
  proof (cases "a = c")
    case True
    then show ?thesis by simp
  next
    case False
    with Cons.prems have c: "c \<in> set xs" by simp
    then have "f c \<in> f ` set xs" by (rule imageI)
    with Cons.prems(1) have "f a \<noteq> f c" by auto
    with Cons c show ?thesis by simp
  qed
qed

lemma resolve_attributed:
  assumes d: "distinct (map check_id cs)" "distinct (map fst ids)" "distinct (map snd ids)"
      and c: "c \<in> set cs" and r: "map_of ids (check_id c) = component (split CHR ''/'' topic) 4"
      and k: "component (split CHR ''/'' topic) 5 = Some kind"
  shows "resolve_check cs (objectFlip ids) topic =
           (if component (split CHR ''/'' topic) 4 = Some ''__proto__'' then None else Some c)"
proof -
  from k obtain str where str: "component (split CHR ''/'' topic) 4 = Some str"
    by (auto simp: component_def split: if_splits)
  with r have mem: "(check_id c, str) \<in> set ids" by (simp add: map_of_SomeD)
  show ?thesis
  proof (cases "str = ''__proto__''")
    case True
    have "find (\<lambda>c. False) cs = None" by (induction cs) simp_all
    with True str show ?thesis
      by (simp add: resolve_check_def prop_key_def objectFlip_proto)
  next
    case False
    from objectFlip_lookup [OF d(2,3) mem False] str
    have "resolve_check cs (objectFlip ids) topic = find (\<lambda>x. check_id x = check_id c) cs"
      by (simp add: resolve_check_def prop_key_def)
    with find_distinct [OF d(1) c] str False show ?thesis by simp
  qed
qed

lemma attributed_moves:
  assumes "attributed cs ids s" and "moves s s'"
      and "\<And>c. load (\<lambda>x. x = Some c) s' \<le> load (\<lambda>x. x = Some c) s"
  shows "attributed cs ids s'"
proof -
  have "c \<in> set cs \<and> r = map_of ids (check_id c)"
    if "map_of (timers s') h = Some (Armed d r c)" for h d r c
  proof -
    from that assms(2) have "map_of (timers s) h = Some (Armed d r c)" by (simp add: moves_def)
    with assms(1) show ?thesis unfolding attributed_def by blast
  qed
  moreover have "load (\<lambda>x. x = Some c) s' \<le> 1" for c
  proof -
    from assms(1) have "load (\<lambda>x. x = Some c) s \<le> 1" by (simp add: attributed_def)
    with assms(3) [of c] show ?thesis by linarith
  qed
  ultimately show ?thesis unfolding attributed_def by blast
qed

lemma attributed_handler_resume:
  assumes d: "distinct (map check_id cs)" "distinct (map fst ids)" "distinct (map snd ids)"
      and ok: "table_ok s" and a: "attributed cs ids s"
  shows "attributed cs ids (handler_resume topic m cs (objectFlip ids) s)"
proof (rule attributed_moves [OF a handler_resume_moves])
  fix c0
  show "load (\<lambda>x. x = Some c0) (handler_resume topic m cs (objectFlip ids) s)
          \<le> load (\<lambda>x. x = Some c0) s"
  proof (rule handler_resume_load [OF ok])
    fix h dl c
    assume t: "map_of (timers s) h = Some (Armed dl (component (split CHR ''/'' topic) 4) c)"
       and k: "component (split CHR ''/'' topic) 5 = Some ''run-end''
               \<or> component (split CHR ''/'' topic) 5 = Some ''error''"
       and p: "resolve_check cs (objectFlip ids) topic = Some c0"
    from a t have "c \<in> set cs \<and> component (split CHR ''/'' topic) 4 = map_of ids (check_id c)"
      unfolding attributed_def by blast
    then have c: "c \<in> set cs"
      and r: "map_of ids (check_id c) = component (split CHR ''/'' topic) 4"
      by simp_all
    from k obtain kind where "component (split CHR ''/'' topic) 5 = Some kind" by blast
    from resolve_attributed [OF d c r this] p show "Some c = Some c0"
      by (simp split: if_splits)
  qed
qed

lemma attributed_fold_resume:
  assumes d: "distinct (map check_id cs)" "distinct (map fst ids)" "distinct (map snd ids)"
  shows "mid cs s \<Longrightarrow> attributed cs ids s \<Longrightarrow>
         attributed cs ids
           (fold (\<lambda>(topic, message). handler_resume topic message cs (objectFlip ids)) xs s)"
proof (induction xs arbitrary: s)
  case Nil
  then show ?case by simp
next
  case (Cons x xs)
  obtain topic message where x: "x = (topic, message)" by (cases x)
  from Cons.prems(1) have ok: "table_ok s" by (simp add: mid_def)
  from Cons.IH [OF mid_handler_resume [OF Cons.prems(1), of topic message cs "objectFlip ids"]
      attributed_handler_resume [OF d ok Cons.prems(2), of topic message]]
    x
  show ?case by simp
qed

lemma load_run_continue [simp]: "load P (run_continue s) = load P s"
  by (simp add: run_continue_def load_def run_finally_def)

lemma timers_run_continue [simp]: "timers (run_continue s) = timers s"
  by (simp add: run_continue_def)

lemma timeouts_run_continue [simp]: "timeouts (run_continue s) = timeouts s"
  by (simp add: run_continue_def)

lemma attributed_run_continue [simp]:
  "attributed cs ids (run_continue s) = attributed cs ids s"
  by (simp add: attributed_def)

lemma distinct_filter_eq: "distinct xs \<Longrightarrow> length (filter (\<lambda>x. x = c) xs) \<le> 1"
  by (induction xs) (auto simp: filter_eq_none)

lemma filter_zip_snd:
  "length ns = length cs \<Longrightarrow>
   length (filter (\<lambda>p. snd p = c) (zip ns cs)) = length (filter (\<lambda>x. x = c) cs)"
  by (induction ns cs rule: list_induct2) simp_all

lemma response_timers:
  "timers (scheduleAllChecks_response (cs, ids) s) =
     timers s @ map (\<lambda>(h, c). (h, Armed (timeout s * 1000) (map_of ids (check_id c)) c))
                  (zip [next_timer s ..< next_timer s + length cs] cs)"
  by (simp add: scheduleAllChecks_response_def allChecksFinished_def Let_def fold_arm_timers)

lemma attributed_response:
  assumes d: "distinct (map check_id cs)" and i: "idle s" and t: "trace s = pre5 s"
  shows "attributed cs ids ((scheduleAllChecks_response (cs, ids) s)\<lparr>phase := AwaitingCompletion\<rparr>)"
proof -
  let ?s1 = "(scheduleAllChecks_response (cs, ids) s)\<lparr>phase := AwaitingCompletion\<rparr>"
  let ?ns = "[next_timer s ..< next_timer s + length cs]"
  let ?g = "\<lambda>(h, c). (h, Armed (timeout s * 1000) (map_of ids (check_id c)) c)"
  have tm: "timers ?s1 = map ?g (zip ?ns cs)"
    using i response_timers [of cs ids s] by (simp add: idle_def)
  have static: "c \<in> set cs \<and> r = map_of ids (check_id c)"
    if "map_of (timers ?s1) h = Some (Armed dl r c)" for h dl r c
  proof -
    from that have "(h, Armed dl r c) \<in> set (map ?g (zip ?ns cs))"
      unfolding tm by (rule map_of_SomeD)
    then obtain h' c' where "(h', c') \<in> set (zip ?ns cs)"
      and "Armed dl r c = Armed (timeout s * 1000) (map_of ids (check_id c')) c'"
      by auto
    then show ?thesis by (auto dest: set_zip_rightD)
  qed
  have "load (\<lambda>x. x = Some c) ?s1 \<le> 1" for c
  proof -
    have "filter (\<lambda>t. t_check (snd t) = c) (map ?g (zip ?ns cs))
            = map ?g (filter (\<lambda>p. snd p = c) (zip ?ns cs))"
      by (simp add: filter_map comp_def case_prod_unfold)
    moreover have "length (filter (\<lambda>p. snd p = c) (zip ?ns cs))
                     = length (filter (\<lambda>x. x = c) cs)"
      by (rule filter_zip_snd) simp
    moreover from d have "distinct cs" by (simp add: distinct_map)
    ultimately have "length (filter (\<lambda>t. t_check (snd t) = c) (timers ?s1)) \<le> 1"
      using distinct_filter_eq [of cs c] by (simp add: tm)
    with i t show ?thesis by (simp add: load_def idle_def)
  qed
  with static show ?thesis unfolding attributed_def by blast
qed

lemma attributed_updates [simp]:
  "attributed cs ids (s\<lparr>phase := p\<rparr>) = attributed cs ids s"
  "attributed cs ids (s\<lparr>suspended := x\<rparr>) = attributed cs ids s"
  "attributed cs ids (s\<lparr>unhandled := y\<rparr>) = attributed cs ids s"
  by (simp_all add: attributed_def load_def)

lemma attributed_step:
  assumes d: "distinct (map check_id cs)" "distinct (map fst ids)" "distinct (map snd ids)"
      and i: "inv s" and c: "checks s = Resolved cs (objectFlip ids)"
      and a: "attributed cs ids s"
  shows "attributed cs ids (step i s)"
proof -
  from i c have l: "live cs s" by (simp add: inv_def)
  then have ok: "table_ok s" by (simp add: live_def mid_def)
  from live_phase [OF l] have
    p: "phase s \<noteq> NotStarted" "phase s \<noteq> Connecting" "phase s \<noteq> Subscribing"
       "phase s \<noteq> Triggering"
    by auto
  show ?thesis
  proof (cases i)
    case (Message topic raw)
    show ?thesis
    proof (cases raw)
      case NotJson
      with Message a show ?thesis by (simp add: on_message_def reject_def)
    next
      case (JsonText m)
      with Message c a attributed_handler_resume [OF d ok a, of topic m]
      show ?thesis by (simp add: on_message_def)
    qed
  next
    case (TimerFires h)
    with attributed_moves [OF a fire_moves fire_load] show ?thesis by simp
  next
    case (AssetReply n r)
    with attributed_moves [OF a asset_reply_moves asset_reply_load] show ?thesis by simp
  qed (use p a in \<open>simp_all add: run_start_def run_connected_def run_subscribed_def
        run_triggered_def run_ended_def\<close>)
qed

lemma attributed_exec:
  assumes d: "distinct (map check_id cs)" "distinct (map fst ids)" "distinct (map snd ids)"
  shows "inv s \<Longrightarrow> checks s = Resolved cs (objectFlip ids) \<Longrightarrow> attributed cs ids s \<Longrightarrow>
         attributed cs ids (exec ins s)"
proof (induction ins arbitrary: s)
  case Nil
  then show ?case by (simp add: exec_def)
next
  case (Cons i ins)
  from Cons.IH [OF inv_step [OF Cons.prems(1)] checks_step_Resolved [OF Cons.prems(1,2)]
      attributed_step [OF d Cons.prems]]
  show ?case by (simp add: exec_Cons)
qed

lemma attributed_after_success:
  assumes d: "distinct (map check_id cs)" "distinct (map fst ids)" "distinct (map snd ids)"
      and "phase (exec ins (CheckRunner acc key tags loc t v u)) = Triggering"
      and "s = exec (ins @ TriggerReply (Inr (cs, ids)) # ins') (CheckRunner acc key tags loc t v u)"
  shows "attributed cs ids s"
proof -
  let ?s0 = "exec ins (CheckRunner acc key tags loc t v u)"
  let ?s1 = "(scheduleAllChecks_response (cs, ids) ?s0)\<lparr>phase := AwaitingCompletion\<rparr>"
  let ?s2 = "step (TriggerReply (Inr (cs, ids))) ?s0"
  have i0: "inv ?s0" by (rule inv_exec [OF inv_init])
  from inv_Triggering [OF i0 assms(4)] have i: "idle ?s0" and t: "trace ?s0 = pre5 ?s0"
    by simp_all
  have m1: "mid cs (?s1\<lparr>suspended := []\<rparr>)"
    using mid_response [OF i t, of cs ids] by simp
  have a1: "attributed cs ids (?s1\<lparr>suspended := []\<rparr>)"
    using attributed_response [OF d(1) i t, of ids] by simp
  from attributed_fold_resume [OF d m1 a1, of "suspended ?s1"]
  have "attributed cs ids (resume_suspended ?s1)"
    by (simp add: resume_suspended_def)
  then have a2: "attributed cs ids ?s2"
    using assms(4) by (simp add: run_triggered_def)
  have i2: "inv ?s2" by (rule inv_step [OF i0])
  have s: "s = exec ins' ?s2"
    using assms(5) by (simp add: exec_append exec_Cons)
  from attributed_exec [OF d i2 trigger_succeeds [OF i0 assms(4)] a2] s
  show ?thesis by simp
qed

lemma paired_pairs: "paired st xs \<Longrightarrow> pairs st xs"
  by (induction st xs rule: paired.induct) (auto split: action.splits event.splits)

lemma pairs_append: "pairs st xs \<Longrightarrow> pairs st (xs @ ys) = pairs None ys"
  by (induction st xs rule: pairs.induct) (auto split: action.splits event.splits)

lemma terminal_append [simp]: "terminal P (xs @ ys) = terminal P xs + terminal P ys"
  by (simp add: terminal_def)

lemma terminal_Nil [simp]: "terminal P [] = 0"
  by (simp add: terminal_def)

lemma terminal_Cons [simp]:
  "terminal P (a # xs) = (if is_terminal P a then 1 else 0) + terminal P xs"
  by (simp add: terminal_def)

lemma pairs_counts:
  "pairs st xs \<Longrightarrow>
   finished P xs = terminal P xs + (case st of Some c \<Rightarrow> if P c then 1 else 0 | None \<Rightarrow> 0)"
  by (induction st xs rule: pairs.induct) (auto split: action.splits event.splits)

lemma pairs_next:
  "pairs st xs \<Longrightarrow> xs = pre @ a # post \<Longrightarrow> is_terminal (\<lambda>x. x = k) a \<Longrightarrow>
   \<exists>post'. post = Emit (CHECK_FINISHED k) # post'"
proof (induction pre arbitrary: st xs)
  case Nil
  then show ?case
    by (cases st; cases post) (auto split: action.splits event.splits)
next
  case (Cons b pre)
  from Cons.prems(1,2) obtain st' where "pairs st' (pre @ a # post)"
    by (cases st) (auto split: action.splits event.splits)
  from Cons.IH [OF this refl Cons.prems(3)] show ?case .
qed

lemma pairs_pre5: "pairs None (pre5 s)"
  by (simp add: pre5_def pre3_def)

lemma live_pairs:
  assumes "live cs s"
  shows "pairs None (trace s)"
proof -
  from assms obtain rest where
    r: "trace s = pre5 s @ Emit (RUN_STARTED cs) # rest"
       "if phase s = AwaitingCompletion then paired None rest
        else (phase s = Disconnecting \<or> (\<exists>r. phase s = Done r))
           \<and> (\<exists>r1 r2. rest = r1 @ Emit RUN_FINISHED # SocketEnd # r2
                 \<and> paired None r1 \<and> paired None r2
                 \<and> finished (\<lambda>_. True) r1 = length cs)"
    unfolding live_def mid_def shape_def by blast
  have "pairs None rest"
  proof (cases "phase s = AwaitingCompletion")
    case True
    with r(2) show ?thesis by (simp add: paired_pairs)
  next
    case False
    with r(2) obtain r1 r2 where
      d: "rest = r1 @ Emit RUN_FINISHED # SocketEnd # r2" "paired None r1" "paired None r2"
      by auto
    from paired_pairs [OF d(2)] paired_pairs [OF d(3)] show ?thesis
      unfolding d(1) by (simp add: pairs_append)
  qed
  with r(1) show ?thesis by (simp add: pairs_append [OF pairs_pre5])
qed

lemma timeouts_step:
  assumes i: "inv s" and c: "checks s = Resolved cs ids"
  shows "fst ` set (timeouts (step i s)) \<subseteq> fst ` set (timeouts s)"
proof -
  from i c have l: "live cs s" by (simp add: inv_def)
  from live_phase [OF l] have
    p: "phase s \<noteq> NotStarted" "phase s \<noteq> Connecting" "phase s \<noteq> Subscribing"
       "phase s \<noteq> Triggering"
    by auto
  have m: "fst ` set (timeouts s') \<subseteq> fst ` set (timeouts s)" if "moves s s'" for s'
    using that by (simp add: moves_def)
  show ?thesis
  proof (cases i)
    case (Message topic raw)
    with c m [OF handler_resume_moves] show ?thesis
      by (cases raw) (simp_all add: on_message_def)
  next
    case (TimerFires h)
    with m [OF fire_moves] show ?thesis by simp
  next
    case (AssetReply n r)
    with m [OF asset_reply_moves] show ?thesis by simp
  qed (use p in \<open>simp_all add: run_start_def run_connected_def run_subscribed_def
        run_triggered_def run_ended_def\<close>)
qed

lemma on_message_unknown:
  assumes i: "inv s" and u: "component (split CHR ''/'' topic) 4 \<notin> fst ` set (timeouts s)"
  shows "inv (on_message topic raw s) \<and> trace (on_message topic raw s) = trace s"
proof (cases raw)
  case NotJson
  with i show ?thesis by (simp add: on_message_def reject_def)
next
  case (JsonText m)
  show ?thesis
  proof (cases "checks s")
    case (Resolved cs ids)
    with JsonText i u show ?thesis by (simp add: on_message_def handler_resume_def Let_def)
  qed (use JsonText i in \<open>simp_all add: on_message_def reject_def\<close>)
qed

lemma message_unknown_trace:
  assumes i: "inv s" and u: "component (split CHR ''/'' topic) 4 \<notin> fst ` set (timeouts s)"
  shows "trace (step (Message topic raw) s) = trace s"
  using on_message_unknown [OF i u, of raw] inv_run_continue_id [of "on_message topic raw s"]
  by simp

text \<open>
  Claim C3. Let the trigger response select checks with distinct ids through an injective
  mapping (the precondition on the backend's mapping). Then in every state reached afterwards,
  for every check \<open>c\<close>: at most one \<open>CHECK_FINISHED\<close> event and equally many terminal events
  were emitted for \<open>c\<close>, and every terminal event is followed at once by the
  \<open>CHECK_FINISHED\<close> event of the same check. The mechanism holds without the precondition:
  a message whose run id is not in the timer table adds nothing to the trace; a timer that
  fires removes the entry of its run id; and no step brings a removed entry back.
\<close>

theorem at_most_one_terminal_pair:
  assumes "distinct (map check_id cs)" and "distinct (map fst ids)" and "distinct (map snd ids)"
      and "phase (exec ins (CheckRunner acc key tags loc t v u)) = Triggering"
      and "s = exec (ins @ TriggerReply (Inr (cs, ids)) # ins') (CheckRunner acc key tags loc t v u)"
  shows "finished (\<lambda>x. x = Some c) (trace s) \<le> 1
       \<and> terminal (\<lambda>x. x = Some c) (trace s) = finished (\<lambda>x. x = Some c) (trace s)
       \<and> (\<forall>pre a post k. trace s = pre @ a # post \<and> is_terminal (\<lambda>x. x = k) a \<longrightarrow>
             (\<exists>post'. post = Emit (CHECK_FINISHED k) # post'))
       \<and> (component (split CHR ''/'' topic) 4 \<notin> fst ` set (timeouts s) \<longrightarrow>
             trace (step (Message topic raw) s) = trace s)
       \<and> (map_of (timers s) h = Some (Armed d r c') \<longrightarrow>
             r \<notin> fst ` set (timeouts (step (TimerFires h) s)))
       \<and> fst ` set (timeouts (step i s)) \<subseteq> fst ` set (timeouts s)"
proof -
  from after_success [OF assms(4,5)] have i: "inv s"
    and c: "checks s = Resolved cs (objectFlip ids)"
    by simp_all
  then have l: "live cs s" by (simp add: inv_def)
  have a: "attributed cs ids s" by (rule attributed_after_success [OF assms])
  have p: "pairs None (trace s)" by (rule live_pairs [OF l])
  have one: "finished (\<lambda>x. x = Some c) (trace s) \<le> 1"
  proof -
    from a have "load (\<lambda>x. x = Some c) s \<le> 1" by (simp add: attributed_def)
    with finished_le_load [of "\<lambda>x. x = Some c" s] show ?thesis by linarith
  qed
  have eq: "terminal (\<lambda>x. x = Some c) (trace s) = finished (\<lambda>x. x = Some c) (trace s)"
    using pairs_counts [OF p, of "\<lambda>x. x = Some c"] by simp
  have nxt: "\<exists>post'. post = Emit (CHECK_FINISHED k) # post'"
    if "trace s = pre @ a # post" and "is_terminal (\<lambda>x. x = k) a" for pre a post k
    by (rule pairs_next [OF p that])
  have gone: "r \<notin> fst ` set (timeouts (step (TimerFires h) s))"
    if "map_of (timers s) h = Some (Armed d r c')"
    using that by (simp add: fire_armed delete_notin_dom)
  have nxt': "\<forall>pre a post k. trace s = pre @ a # post \<and> is_terminal (\<lambda>x. x = k) a \<longrightarrow>
             (\<exists>post'. post = Emit (CHECK_FINISHED k) # post')"
    using nxt by blast
  have msg: "component (split CHR ''/'' topic) 4 \<notin> fst ` set (timeouts s) \<longrightarrow>
             trace (step (Message topic raw) s) = trace s"
    using message_unknown_trace [OF i] by simp
  have sub: "fst ` set (timeouts (step i s)) \<subseteq> fst ` set (timeouts s)"
    by (rule timeouts_step [OF \<open>inv s\<close> c])
  have gone': "map_of (timers s) h = Some (Armed d r c') \<longrightarrow>
             r \<notin> fst ` set (timeouts (step (TimerFires h) s))"
    using gone by simp
  from one eq nxt' msg gone' sub show ?thesis by (intro conjI)
qed

section \<open>A rejected fetch blocks the run\<close>

lemma load_step:
  assumes "inv s" and "checks s = Resolved cs ids"
  shows "load (\<lambda>_. True) (step i s) \<le> load (\<lambda>_. True) s"
proof -
  from assms have l: "live cs s" by (simp add: inv_def)
  then have ok: "table_ok s" by (simp add: live_def mid_def)
  from live_phase [OF l] have
    p: "phase s \<noteq> NotStarted" "phase s \<noteq> Connecting" "phase s \<noteq> Subscribing"
       "phase s \<noteq> Triggering"
    by auto
  show ?thesis
  proof (cases i)
    case (Message topic raw)
    have "load (\<lambda>_. True) (on_message topic raw s) \<le> load (\<lambda>_. True) s"
      using assms(2) handler_resume_load [OF ok, of topic "\<lambda>_. True"]
      by (cases raw) (simp_all add: on_message_def reject_def load_def)
    with Message show ?thesis by simp
  next
    case (TimerFires h)
    with fire_load [of "\<lambda>_. True" h s] show ?thesis by simp
  next
    case (AssetReply n r)
    with asset_reply_load [of "\<lambda>_. True" n r s] show ?thesis by simp
  next
    case (EndReply r)
    then show ?thesis by (simp add: run_ended_def load_def)
  qed (use p in \<open>simp_all add: run_start_def run_connected_def run_subscribed_def
        run_triggered_def\<close>)
qed

lemma load_exec:
  "inv s \<Longrightarrow> checks s = Resolved cs ids \<Longrightarrow>
   load (\<lambda>_. True) (exec ins s) \<le> load (\<lambda>_. True) s"
proof (induction ins arbitrary: s)
  case Nil
  then show ?case by (simp add: exec_def)
next
  case (Cons i ins)
  have "load (\<lambda>_. True) (exec ins (step i s)) \<le> load (\<lambda>_. True) (step i s)"
    by (rule Cons.IH [OF inv_step [OF Cons.prems(1)] checks_step_Resolved [OF Cons.prems]])
  with load_step [OF Cons.prems, of i] show ?case by (simp add: exec_Cons)
qed

lemma asset_reply_rejected_load:
  assumes "map_of (pending s) n = Some k"
  shows "load (\<lambda>_. True) (asset_reply n (Inl e) s) < load (\<lambda>_. True) s"
  using assms filter_delete_drop [of "pending s" n k "\<lambda>_. True"]
  by (simp add: asset_reply_def Let_def reject_def load_def)

lemma starved:
  assumes i: "inv s" and c: "checks s = Resolved cs ids"
      and l: "load (\<lambda>_. True) s < length cs"
  shows "Emit RUN_FINISHED \<notin> set (trace s) \<and> SocketEnd \<notin> set (trace s)
       \<and> phase s = AwaitingCompletion"
proof -
  from i c have "shape cs s" by (simp add: inv_def live_def mid_def)
  then obtain rest where
    r: "trace s = pre5 s @ Emit (RUN_STARTED cs) # rest"
       "if phase s = AwaitingCompletion then paired None rest
        else (phase s = Disconnecting \<or> (\<exists>r. phase s = Done r))
           \<and> (\<exists>r1 r2. rest = r1 @ Emit RUN_FINISHED # SocketEnd # r2
                 \<and> paired None r1 \<and> paired None r2
                 \<and> finished (\<lambda>_. True) r1 = length cs)"
    unfolding shape_def by blast
  have f: "finished (\<lambda>_. True) (trace s) < length cs"
    using finished_le_load [of "\<lambda>_. True" s] l by simp
  have p: "phase s = AwaitingCompletion"
  proof (rule ccontr)
    assume "phase s \<noteq> AwaitingCompletion"
    with r(2) obtain r1 r2 where
      "rest = r1 @ Emit RUN_FINISHED # SocketEnd # r2" "finished (\<lambda>_. True) r1 = length cs"
      by auto
    with r(1) have "length cs \<le> finished (\<lambda>_. True) (trace s)" by simp
    with f show False by simp
  qed
  with r(2) have "paired None rest" by simp
  from paired_no_run_finished [OF this] paired_no_socket_end [OF this] r(1) p
  show ?thesis by (simp add: run_finished_pre5)
qed

text \<open>
  Claim C2. Every session is to emit \<open>RUN_FINISHED\<close> exactly once. The code counts
  correctly but does not always get there: the \<^verbatim>\<open>run-end\<close> branch clears the timer of its
  check before it awaits the asset fetches, and nothing catches a fetch that rejects. So in
  every state that \<^verbatim>\<open>run()\<close> reaches with a listener waiting for the fetch \<open>n\<close>: if that
  fetch rejects, then whatever the environment does afterwards (\<open>ins'\<close>), \<open>RUN_FINISHED\<close>
  is never emitted, the broker connection is never closed, and \<^verbatim>\<open>run()\<close> stays suspended at
  \<^verbatim>\<open>await this.allChecksFinishedPromise\<close>.
\<close>

theorem run_blocks_after_failed_fetch:
  assumes "s = exec ins (CheckRunner acc key tags loc t v u)"
      and "map_of (pending s) n = Some k"
      and "s' = exec ins' (step (AssetReply n (Inl e)) s)"
  shows "Emit RUN_FINISHED \<notin> set (trace s')
       \<and> SocketEnd \<notin> set (trace s')
       \<and> phase s' = AwaitingCompletion"
proof -
  have i: "inv s" unfolding assms(1) by (rule inv_exec [OF inv_init])
  have "\<not> idle s" using assms(2) by (auto simp: idle_def)
  with i obtain cs ids where c: "checks s = Resolved cs ids"
    using inv_not_resolved_idle by blast
  let ?s1 = "step (AssetReply n (Inl e)) s"
  have i1: "inv ?s1" by (rule inv_step [OF i])
  have c1: "checks ?s1 = Resolved cs ids" by (rule checks_step_Resolved [OF i c])
  from i c have "load (\<lambda>_. True) s \<le> length cs" by (simp add: inv_def live_def mid_def)
  with asset_reply_rejected_load [OF assms(2), of e]
  have l1: "load (\<lambda>_. True) ?s1 < length cs" by simp
  have "inv s'" unfolding assms(3) by (rule inv_exec [OF i1])
  moreover have "checks s' = Resolved cs ids" unfolding assms(3) by (rule exec_Resolved [OF i1 c1])
  moreover have "load (\<lambda>_. True) s' < length cs"
    unfolding assms(3) using load_exec [OF i1 c1, of ins'] l1 by simp
  ultimately show ?thesis by (rule starved)
qed

section \<open>The claims in the example session\<close>

lemma boot_Triggering:
  "phase (exec boot (CheckRunner ''acc'' ''key'' [''tag''] (PUBLIC ''eu-central-1'') 5 False ''suite''))
     = Triggering"
  by code_simp

lemma triggered_alt:
  "triggered = exec (boot @ TriggerReply (Inr ([checkA, checkB], [(''A'', ''r1''), (''B'', ''r2'')])) # [])
                 (CheckRunner ''acc'' ''key'' [''tag''] (PUBLIC ''eu-central-1'') 5 False ''suite'')"
  by (simp add: triggered_def runner0_def)

text \<open>
  The example session up to the trigger call.
\<close>

theorem subscribed_before_trigger_witness:
  "trace (exec boot runner0) =
     [Connect, OnMessage, Subscribe ''account/acc/ad-hoc-check-results/suite/+/+'', SubscribeAcked]
     @ Trigger \<lparr>shouldRecord = True, runLocation = PUBLIC ''eu-central-1'',
                checkRunSuiteId = ''suite'', req_targetTags = [''tag'']\<rparr> # []
   \<and> [Connect, OnMessage, Subscribe ''account/acc/ad-hoc-check-results/suite/+/+'', SubscribeAcked]
       = [Connect, OnMessage,
          Subscribe (''account/'' @ ''acc'' @ ''/ad-hoc-check-results/'' @ ''suite'' @ ''/+/+''),
          SubscribeAcked]"
proof -
  have h: "trace (exec boot (CheckRunner ''acc'' ''key'' [''tag''] (PUBLIC ''eu-central-1'') 5 False ''suite'')) =
     [Connect, OnMessage, Subscribe ''account/acc/ad-hoc-check-results/suite/+/+'', SubscribeAcked]
     @ Trigger \<lparr>shouldRecord = True, runLocation = PUBLIC ''eu-central-1'',
                checkRunSuiteId = ''suite'', req_targetTags = [''tag'']\<rparr> # []"
    by code_simp
  from subscribed_before_trigger [OF h] h show ?thesis
    by (simp add: runner0_def)
qed

text \<open>
  No check: \<open>RUN_FINISHED\<close> with the response. Two checks: none with the response, one
  after the scenario.
\<close>

lemma run_finished_counted_example:
  "phase (exec boot runner0) = Triggering
   \<and> Emit RUN_FINISHED \<in> set (trace (exec (boot @ TriggerReply (Inr ([], [])) # []) runner0))
   \<and> length (filter (\<lambda>a. a = Emit RUN_FINISHED)
               (trace (exec (boot @ TriggerReply (Inr two_checks) # scenario) runner0))) = 1
   \<and> length (filter (\<lambda>a. a = Emit RUN_FINISHED)
               (trace (exec (boot @ TriggerReply (Inr two_checks) # []) runner0))) = 0"
proof -
  have f2: "finished (\<lambda>_. True)
              (trace (exec (boot @ TriggerReply (Inr ([checkA, checkB], [(''A'', ''r1''), (''B'', ''r2'')])) # scenario)
                 (CheckRunner ''acc'' ''key'' [''tag''] (PUBLIC ''eu-central-1'') 5 False ''suite''))) = 2"
    by code_simp
  have f0: "finished (\<lambda>_. True)
              (trace (exec (boot @ TriggerReply (Inr ([checkA, checkB], [(''A'', ''r1''), (''B'', ''r2'')])) # [])
                 (CheckRunner ''acc'' ''key'' [''tag''] (PUBLIC ''eu-central-1'') 5 False ''suite''))) = 0"
    by code_simp
  from run_finished_counted [OF boot_Triggering refl, of "[]" "[]" "[]"]
    run_finished_counted [OF boot_Triggering refl, of "[checkA, checkB]"
      "[(''A'', ''r1''), (''B'', ''r2'')]" scenario]
    run_finished_counted [OF boot_Triggering refl, of "[checkA, checkB]"
      "[(''A'', ''r1''), (''B'', ''r2'')]" "[]"]
    boot_Triggering f2 f0
  show ?thesis
    by (simp add: runner0_def two_checks_def)
qed

text \<open>
  The session that never completes: when the fetch for \<open>A\<close> has been rejected and the timer
  of \<open>B\<close> has fired, no timer, no table entry and no fetch is left that could finish
  \<open>A\<close>, and \<^verbatim>\<open>run()\<close> still waits.
\<close>

theorem run_blocks_after_failed_fetch_witness:
  "map_of (pending (exec (boot @ [TriggerReply (Inr two_checks), logs_wanted]) runner0)) 0
     = Some (AwaitLogs (Some checkA) failed_result (Some (JStr ''eu-central-1'')) None)
   \<and> Emit RUN_FINISHED \<notin> set (trace blocked_session)
   \<and> SocketEnd \<notin> set (trace blocked_session)
   \<and> phase blocked_session = AwaitingCompletion
   \<and> timers blocked_session = [] \<and> pending blocked_session = [] \<and> timeouts blocked_session = []
   \<and> emitted (trace blocked_session) =
       [RUN_STARTED [checkA, checkB],
        CHECK_FAILED (Some checkB) (JStr ''Reached timeout''), CHECK_FINISHED (Some checkB)]"
proof -
  let ?init = "CheckRunner ''acc'' ''key'' [''tag''] (PUBLIC ''eu-central-1'') 5 False ''suite''"
  have h: "map_of (pending (exec (boot @ [TriggerReply (Inr two_checks), logs_wanted]) ?init)) 0
             = Some (AwaitLogs (Some checkA) failed_result (Some (JStr ''eu-central-1'')) None)"
    by code_simp
  have e: "blocked_session =
             exec [TimerFires 0, TimerFires 1]
               (step (AssetReply 0 (Inl (Rejection ''getLogs'')))
                  (exec (boot @ [TriggerReply (Inr two_checks), logs_wanted]) ?init))"
    by (simp add: blocked_session_def runner0_def exec_def del: step.simps)
  have q: "timers blocked_session = []" "pending blocked_session = []"
          "timeouts blocked_session = []"
    by code_simp+
  have ev: "emitted (trace blocked_session) =
       [RUN_STARTED [checkA, checkB],
        CHECK_FAILED (Some checkB) (JStr ''Reached timeout''), CHECK_FINISHED (Some checkB)]"
    by code_simp
  from run_blocks_after_failed_fetch [OF refl h e] h q ev
  show ?thesis by (simp add: runner0_def)
qed

text \<open>
  A network error in the example session, followed by the messages of the scenario.
\<close>

theorem trigger_failure_only_error_witness:
  "phase (exec boot runner0) = Triggering
   \<and> emitted (trace (exec (boot @ TriggerReply (Inl (Rejection ''network'')) # scenario) runner0))
       = [ERROR (Rejection ''network'')]
   \<and> allChecksFinishedPromise
        (exec (boot @ TriggerReply (Inl (Rejection ''network'')) # scenario) runner0) = None"
  using trigger_failure_only_error [OF boot_Triggering refl, of "Rejection ''network''" scenario]
    boot_Triggering
  by (simp add: runner0_def)

text \<open>
  A session without checks, up to the disconnect, and both outcomes of the disconnect.
\<close>

theorem disconnect_failure_propagates_witness:
  "phase (exec (boot @ [TriggerReply (Inr ([], []))]) runner0) = Disconnecting
   \<and> phase (step (EndReply (Inl (Rejection ''socket'')))
              (exec (boot @ [TriggerReply (Inr ([], []))]) runner0))
       = Done (Some (Rejection ''socket''))
   \<and> phase (step (EndReply (Inr ()))
              (exec (boot @ [TriggerReply (Inr ([], []))]) runner0))
       = Done None"
proof -
  have p: "phase (exec (boot @ [TriggerReply (Inr ([], []))])
             (CheckRunner ''acc'' ''key'' [''tag''] (PUBLIC ''eu-central-1'') 5 False ''suite''))
           = Disconnecting"
    by code_simp
  from disconnect_failure_propagates [OF refl p, of "Rejection ''socket''"] p
  show ?thesis by (simp add: runner0_def)
qed

text \<open>
  Claim C8 as stated fails: the \<^verbatim>\<open>finally\<close> block awaits \<^verbatim>\<open>socketClient.end()\<close> with
  nothing around it. A run that completed normally rejects when the disconnect fails.
\<close>

theorem disconnect_failure_counterexample:
  "emitted (trace (exec (boot @ [TriggerReply (Inr ([], [])), EndReply (Inl (Rejection ''socket''))])
                     runner0)) = [RUN_STARTED [], RUN_FINISHED]
   \<and> phase (exec (boot @ [TriggerReply (Inr ([], [])), EndReply (Inl (Rejection ''socket''))])
              runner0) = Done (Some (Rejection ''socket''))"
  by code_simp

text \<open>
  The scenario: the second end notification for \<open>r1\<close> and a late one for \<open>r2\<close> are
  dropped, and the timer of \<open>B\<close> removes the entry of \<open>r2\<close>.
\<close>

theorem at_most_one_terminal_pair_witness:
  "phase (exec boot runner0) = Triggering
   \<and> finished (\<lambda>x. x = Some checkA) (trace finished_session) \<le> 1
   \<and> terminal (\<lambda>x. x = Some checkA) (trace finished_session)
       = finished (\<lambda>x. x = Some checkA) (trace finished_session)
   \<and> (\<exists>post'. [Emit (CHECK_FINISHED (Some checkB)), Emit RUN_FINISHED, SocketEnd]
                = Emit (CHECK_FINISHED (Some checkB)) # post')
   \<and> trace (step (Message (topic_of ''r2'' ''run-end'') (JsonText JNull)) finished_session)
       = trace finished_session
   \<and> Some ''r2'' \<notin> fst ` set (timeouts (step (TimerFires 1) triggered))"
proof -
  let ?init = "CheckRunner ''acc'' ''key'' [''tag''] (PUBLIC ''eu-central-1'') 5 False ''suite''"
  let ?cs = "[checkA, checkB]"
  let ?ids = "[(''A'', ''r1''), (''B'', ''r2'')]"
  have d: "distinct (map check_id ?cs)" "distinct (map fst ?ids)" "distinct (map snd ?ids)"
    by (simp_all add: checkA_def checkB_def)
  have fs: "finished_session = exec (boot @ TriggerReply (Inr (?cs, ?ids)) # scenario) ?init"
    by (simp add: finished_session_def two_checks_def runner0_def)
  have unknown: "component (split CHR ''/'' (topic_of ''r2'' ''run-end'')) 4
                   \<notin> fst ` set (timeouts finished_session)"
    unfolding fs by code_simp
  have armed: "map_of (timers triggered) 1 = Some (Armed 5000 (Some ''r2'') checkB)"
    by (simp add: triggered_state)
  have split: "trace finished_session =
      [Connect, OnMessage, Subscribe ''account/acc/ad-hoc-check-results/suite/+/+'',
       SubscribeAcked,
       Trigger \<lparr>shouldRecord = True, runLocation = PUBLIC ''eu-central-1'',
                 checkRunSuiteId = ''suite'', req_targetTags = [''tag'']\<rparr>,
       Emit (RUN_STARTED [checkA, checkB]),
       Emit (CHECK_INPROGRESS (Some checkA)),
       Emit (CHECK_SUCCESSFUL (Some checkA) (JObj ok_result)),
       Emit (CHECK_FINISHED (Some checkA))]
      @ Emit (CHECK_FAILED (Some checkB) (JStr ''Reached timeout''))
      # [Emit (CHECK_FINISHED (Some checkB)), Emit RUN_FINISHED, SocketEnd]"
    unfolding fs by code_simp
  note one = at_most_one_terminal_pair [OF d boot_Triggering fs, where c = checkA
      and topic = "topic_of ''r2'' ''run-end''" and raw = "JsonText JNull"]
  note two = at_most_one_terminal_pair [OF d boot_Triggering triggered_alt, where h = 1
      and d = 5000 and r = "Some ''r2''" and c' = checkB]
  have bt: "phase (exec boot runner0) = Triggering"
    unfolding runner0_def by (rule boot_Triggering)
  have c1: "finished (\<lambda>x. x = Some checkA) (trace finished_session) \<le> 1"
    by (rule one [THEN conjunct1])
  have c2: "terminal (\<lambda>x. x = Some checkA) (trace finished_session)
              = finished (\<lambda>x. x = Some checkA) (trace finished_session)"
    by (rule one [THEN conjunct2, THEN conjunct1])
  have c3: "\<exists>post'. [Emit (CHECK_FINISHED (Some checkB)), Emit RUN_FINISHED, SocketEnd]
                = Emit (CHECK_FINISHED (Some checkB)) # post'"
    by (rule one [THEN conjunct2, THEN conjunct2, THEN conjunct1, rule_format])
       (rule conjI [OF split], simp)
  have c4: "trace (step (Message (topic_of ''r2'' ''run-end'') (JsonText JNull)) finished_session)
              = trace finished_session"
    by (rule one [THEN conjunct2, THEN conjunct2, THEN conjunct2, THEN conjunct1, THEN mp,
          OF unknown])
  have c5: "Some ''r2'' \<notin> fst ` set (timeouts (step (TimerFires 1) triggered))"
    by (rule two [THEN conjunct2, THEN conjunct2, THEN conjunct2, THEN conjunct2,
          THEN conjunct1, THEN mp, OF armed])
  from bt c1 c2 c3 c4 c5 show ?thesis by (intro conjI)
qed

end
